theory Spec2Isabelle
  imports Main "HOL-Library.Word" "HOL-Library.Monad_Syntax"
begin

unbundle bit_operations_syntax

section \<open>The machine: a flat byte memory with 32-bit little-endian words\<close>

text \<open>
  \<^verbatim>\<open>mm.c\<close> stores a pointer in one 4-byte word: the macro \<^verbatim>\<open>PREV(bp)\<close> reads the
  pointer at \<^verbatim>\<open>bp + WSIZE\<close>, directly behind the pointer \<^verbatim>\<open>NEXT(bp)\<close>, and a block of
  \<^verbatim>\<open>MIN_BLKSIZE = 16\<close> bytes holds header, footer and both links. The program is
  therefore an ILP32 program: \<^verbatim>\<open>unsigned int\<close>, \<^verbatim>\<open>size_t\<close> and \<^verbatim>\<open>char *\<close> are all
  32-bit words, arithmetic on them wraps modulo \<open>2 ^ 32\<close>, and memory is an array of
  bytes indexed by 32-bit addresses. Words are stored least significant byte first.

  \<open>word_at\<close> and \<open>word_upd\<close> only say how four bytes make a word. They are not the loads
  and stores of the program: those are \<open>GET\<close> and \<open>PUT\<close> below, which first check that
  the address lies in the memory the program owns.
\<close>

type_synonym word32 = "32 word"
type_synonym byte = "8 word"
type_synonym memory = "word32 \<Rightarrow> byte"

definition word_at :: "memory \<Rightarrow> word32 \<Rightarrow> word32" where
  "word_at m p = ucast (m p) OR push_bit 8 (ucast (m (p + 1)))
                OR push_bit 16 (ucast (m (p + 2))) OR push_bit 24 (ucast (m (p + 3)))"

definition word_upd :: "memory \<Rightarrow> word32 \<Rightarrow> word32 \<Rightarrow> memory" where
  "word_upd m p v = m(p := ucast v, p + 1 := ucast (drop_bit 8 v),
                  p + 2 := ucast (drop_bit 16 v), p + 3 := ucast (drop_bit 24 v))"

text \<open>Two words that share no byte.\<close>

definition apart :: "word32 \<Rightarrow> word32 \<Rightarrow> bool" where
  "apart p q \<longleftrightarrow> (\<forall>i\<in>{0,1,2,3}. \<forall>j\<in>{0,1,2,3}. p + i \<noteq> q + j)"

text \<open>The bytes \<^verbatim>\<open>memcpy(dst, src, n)\<close> leaves, for regions that do not overlap (C leaves
  the overlapping case undefined; the model then copies from the memory before the
  call).\<close>

definition copy_bytes :: "memory \<Rightarrow> word32 \<Rightarrow> word32 \<Rightarrow> word32 \<Rightarrow> memory" where
  "copy_bytes m dst src n = (\<lambda>a. if unat (a - dst) < unat n then m (src + (a - dst)) else m a)"

text \<open>What the caller does with a payload: store bytes one after the other, and read them
  back.\<close>

fun write_bytes :: "memory \<Rightarrow> word32 \<Rightarrow> byte list \<Rightarrow> memory" where
  "write_bytes m p [] = m"
| "write_bytes m p (b # bs) = write_bytes (m(p := b)) (p + 1) bs"

definition read_bytes :: "memory \<Rightarrow> word32 \<Rightarrow> nat \<Rightarrow> byte list" where
  "read_bytes m p n = map (\<lambda>i. m (p + of_nat i)) [0..<n]"

section \<open>The allocator state\<close>

text \<open>
  \<open>mem\<close> is the memory, \<open>heap_p\<close> the global of \<^verbatim>\<open>mm.c\<close>. The fields \<open>mem_start_brk\<close>,
  \<open>mem_brk\<close> and \<open>mem_max_addr\<close> belong to the backing store (\<^verbatim>\<open>memlib.c\<close>, not part of
  the sources), and \<open>out\<close> collects what \<^verbatim>\<open>printf\<close> writes.
\<close>

record heap =
  mem :: memory
  mem_start_brk :: word32
  heap_p :: word32
  mem_brk :: word32
  mem_max_addr :: word32
  out :: "string list"

subsection \<open>Loads and stores that can fault\<close>

text \<open>
  Modelled from the spec: the backing store of \<^verbatim>\<open>memlib.c\<close>, which is not among the
  sources. The spec describes it as the provider of one contiguous range of raw memory
  with a low bound, of which the arena is the part handed out so far. The program owns
  the bytes from \<open>mem_start_brk\<close> up to \<open>mem_max_addr\<close> and nothing else: address 0 and the
  addresses just below it, in particular, are not part of it.

  A C program that loads or stores outside the memory it owns has no defined behaviour;
  on the machine it is stopped by a segmentation fault. Every function of the model
  that touches memory therefore returns an option: \<open>None\<close> says that the call does not
  return, because a load or store left the memory of the backing store (or, in
  \<^verbatim>\<open>find_fit\<close>, because the loop never ends), and \<open>Some\<close> carries the result of a call
  that returns.
\<close>

definition mapped :: "heap \<Rightarrow> word32 \<Rightarrow> nat \<Rightarrow> bool" where
  "mapped s p n \<longleftrightarrow> unat (mem_start_brk s) \<le> unat p \<and> unat p + n \<le> unat (mem_max_addr s)"

subsection \<open>Constants and macros\<close>

abbreviation ALIGNMENT :: word32 where "ALIGNMENT \<equiv> 8"
abbreviation WSIZE :: word32 where "WSIZE \<equiv> 4"
abbreviation DSIZE :: word32 where "DSIZE \<equiv> 8"
abbreviation CHUNKSIZE :: word32 where "CHUNKSIZE \<equiv> 256"
abbreviation MIN_BLKSIZE :: word32 where "MIN_BLKSIZE \<equiv> 16"
abbreviation NULL :: word32 where "NULL \<equiv> 0"

definition ALIGN :: "word32 \<Rightarrow> word32" where
  "ALIGN sz = (sz + (ALIGNMENT - 1)) AND NOT 7"

definition MAX_of :: "word32 \<Rightarrow> word32 \<Rightarrow> word32" where
  "MAX_of x y = (if x > y then x else y)"

definition PACK :: "word32 \<Rightarrow> word32 \<Rightarrow> word32" where
  "PACK sz alloc = sz OR alloc"

definition GET :: "heap \<Rightarrow> word32 \<Rightarrow> word32 option" where
  "GET s p = (if mapped s p 4 then Some (word_at (mem s) p) else None)"

definition PUT :: "heap \<Rightarrow> word32 \<Rightarrow> word32 \<Rightarrow> heap option" where
  "PUT s p val = (if mapped s p 4 then Some (s\<lparr>mem := word_upd (mem s) p val\<rparr>) else None)"

definition GET_SIZE :: "heap \<Rightarrow> word32 \<Rightarrow> word32 option" where
  "GET_SIZE s p = do { v \<leftarrow> GET s p; Some (v AND NOT 7) }"

definition GET_ALLOC :: "heap \<Rightarrow> word32 \<Rightarrow> word32 option" where
  "GET_ALLOC s p = do { v \<leftarrow> GET s p; Some (v AND 1) }"

definition HDRP :: "word32 \<Rightarrow> word32" where
  "HDRP bp = bp - WSIZE"

definition FTRP :: "heap \<Rightarrow> word32 \<Rightarrow> word32 option" where
  "FTRP s bp = do { sz \<leftarrow> GET_SIZE s (HDRP bp); Some (bp + sz - DSIZE) }"

definition NEXT_BLKP :: "heap \<Rightarrow> word32 \<Rightarrow> word32 option" where
  "NEXT_BLKP s bp = do { sz \<leftarrow> GET_SIZE s (HDRP bp); Some (bp + sz) }"

definition PREV_BLKP :: "heap \<Rightarrow> word32 \<Rightarrow> word32 option" where
  "PREV_BLKP s bp = do { sz \<leftarrow> GET_SIZE s (bp - DSIZE); Some (bp - sz) }"

text \<open>The link macros load and store a \<^verbatim>\<open>char *\<close>, which is one 32-bit word.\<close>

definition NEXT :: "heap \<Rightarrow> word32 \<Rightarrow> word32 option" where
  "NEXT s bp = GET s bp"

definition PREV :: "heap \<Rightarrow> word32 \<Rightarrow> word32 option" where
  "PREV s bp = GET s (bp + WSIZE)"

definition SETNEXT :: "heap \<Rightarrow> word32 \<Rightarrow> word32 \<Rightarrow> heap option" where
  "SETNEXT s bp nextaddr = PUT s bp nextaddr"

definition SETPREV :: "heap \<Rightarrow> word32 \<Rightarrow> word32 \<Rightarrow> heap option" where
  "SETPREV s bp prevaddr = PUT s (bp + WSIZE) prevaddr"

text \<open>\<^verbatim>\<open>memcpy(dst, src, n)\<close> of the C library: both regions must lie in the memory the
  program owns when a byte is copied at all.\<close>

definition memcpy :: "heap \<Rightarrow> word32 \<Rightarrow> word32 \<Rightarrow> word32 \<Rightarrow> heap option" where
  "memcpy s dst src n =
     (if n = 0 \<or> (mapped s dst (unat n) \<and> mapped s src (unat n))
      then Some (s\<lparr>mem := copy_bytes (mem s) dst src n\<rparr>) else None)"

subsection \<open>The backing store\<close>

text \<open>
  Modelled from the spec: \<^verbatim>\<open>mem_sbrk\<close> of \<^verbatim>\<open>memlib.c\<close>, which is not among the sources.
  The spec gives it as \<open>extend(n_bytes) -> new_region_start | failure\<close>: the arena grows
  by \<open>n_bytes\<close> at its end and the old end is returned, or nothing changes and the call
  fails, which \<^verbatim>\<open>mm.c\<close> recognises by the result \<^verbatim>\<open>(void *)-1\<close>. The store fails when
  the grown arena would pass its limit \<open>mem_max_addr\<close>.
\<close>

definition mem_sbrk :: "heap \<Rightarrow> word32 \<Rightarrow> heap \<times> word32" where
  "mem_sbrk s incr =
     (if unat (mem_brk s) + unat incr > unat (mem_max_addr s) then (s, - 1)
      else (s\<lparr>mem_brk := mem_brk s + incr\<rparr>, mem_brk s))"

subsection \<open>Free-list splice primitives\<close>

text \<open>
  The conditions \<^verbatim>\<open>PREV(bp) && NEXT(bp)\<close>, \<^verbatim>\<open>!(PREV(bp)) && NEXT(bp)\<close>, ... of the source
  load both links on every path before the first store, so the model loads each of them
  once, \<^verbatim>\<open>PREV(bp)\<close> first.
\<close>

definition rmv_from_list :: "heap \<Rightarrow> word32 \<Rightarrow> heap option" where
  "rmv_from_list s bp = do {
     orig_prev \<leftarrow> PREV s bp;
     orig_next \<leftarrow> NEXT s bp;
     if orig_prev \<noteq> 0 \<and> orig_next \<noteq> 0 then do {
       s1 \<leftarrow> SETNEXT s orig_prev orig_next;
       SETPREV s1 orig_next orig_prev
     } else if \<not> orig_prev \<noteq> 0 \<and> orig_next \<noteq> 0 then do {
       s1 \<leftarrow> SETNEXT s (heap_p s) orig_next;
       SETPREV s1 orig_next 0
     } else if orig_prev \<noteq> 0 \<and> \<not> orig_next \<noteq> 0 then
       SETNEXT s orig_prev 0
     else SETNEXT s (heap_p s) 0
   }"

definition insert_front_list :: "heap \<Rightarrow> word32 \<Rightarrow> heap option" where
  "insert_front_list s bp = do {
     orig_first \<leftarrow> NEXT s (heap_p s);
     s1 \<leftarrow> (if orig_first \<noteq> 0 then do {
              t \<leftarrow> SETNEXT s bp orig_first;
              SETPREV t orig_first bp
            } else SETNEXT s bp 0);
     s2 \<leftarrow> SETNEXT s1 (heap_p s1) bp;
     SETPREV s2 bp 0
   }"

subsection \<open>Coalescing\<close>

definition coalesce :: "heap \<Rightarrow> word32 \<Rightarrow> (heap \<times> word32) option" where
  "coalesce s bp = do {
     pb \<leftarrow> PREV_BLKP s bp;
     pf \<leftarrow> FTRP s pb;
     prev_alloc \<leftarrow> GET_ALLOC s pf;
     nb \<leftarrow> NEXT_BLKP s bp;
     next_alloc \<leftarrow> GET_ALLOC s (HDRP nb);
     sz \<leftarrow> GET_SIZE s (HDRP bp);
     if prev_alloc \<noteq> 0 \<and> next_alloc \<noteq> 0 then do {
       s1 \<leftarrow> insert_front_list s bp;
       Some (s1, bp)
     } else if prev_alloc \<noteq> 0 \<and> \<not> next_alloc \<noteq> 0 then do {
       nb \<leftarrow> NEXT_BLKP s bp;
       nsz \<leftarrow> GET_SIZE s (HDRP nb);
       let sz = sz + nsz;
       nb \<leftarrow> NEXT_BLKP s bp;
       s1 \<leftarrow> rmv_from_list s nb;
       s2 \<leftarrow> PUT s1 (HDRP bp) (PACK sz 0);
       f \<leftarrow> FTRP s2 bp;
       s3 \<leftarrow> PUT s2 f (PACK sz 0);
       s4 \<leftarrow> insert_front_list s3 bp;
       Some (s4, bp)
     } else if \<not> prev_alloc \<noteq> 0 \<and> next_alloc \<noteq> 0 then do {
       pb \<leftarrow> PREV_BLKP s bp;
       psz \<leftarrow> GET_SIZE s (HDRP pb);
       let sz = sz + psz;
       bp \<leftarrow> PREV_BLKP s bp;
       s1 \<leftarrow> rmv_from_list s bp;
       s2 \<leftarrow> PUT s1 (HDRP bp) (PACK sz 0);
       f \<leftarrow> FTRP s2 bp;
       s3 \<leftarrow> PUT s2 f (PACK sz 0);
       s4 \<leftarrow> insert_front_list s3 bp;
       Some (s4, bp)
     } else do {
       pb \<leftarrow> PREV_BLKP s bp;
       psz \<leftarrow> GET_SIZE s (HDRP pb);
       nb \<leftarrow> NEXT_BLKP s bp;
       nsz \<leftarrow> GET_SIZE s (HDRP nb);
       let sz = sz + (psz + nsz);
       pb \<leftarrow> PREV_BLKP s bp;
       s1 \<leftarrow> rmv_from_list s pb;
       nb \<leftarrow> NEXT_BLKP s1 bp;
       s2 \<leftarrow> rmv_from_list s1 nb;
       bp \<leftarrow> PREV_BLKP s2 bp;
       s3 \<leftarrow> PUT s2 (HDRP bp) (PACK sz 0);
       f \<leftarrow> FTRP s3 bp;
       s4 \<leftarrow> PUT s3 f (PACK sz 0);
       s5 \<leftarrow> insert_front_list s4 bp;
       Some (s5, bp)
     }
   }"

definition extend_heap :: "heap \<Rightarrow> word32 \<Rightarrow> (heap \<times> word32) option" where
  "extend_heap s words = do {
     let sz = (if words mod 2 \<noteq> 0 then (words + 1) * WSIZE else words * WSIZE);
     let (s1, bp) = mem_sbrk s sz;
     if bp = - 1 then Some (s1, NULL)
     else do {
       s2 \<leftarrow> PUT s1 (HDRP bp) (PACK sz 0);
       f \<leftarrow> FTRP s2 bp;
       s3 \<leftarrow> PUT s2 f (PACK sz 0);
       nb \<leftarrow> NEXT_BLKP s3 bp;
       s4 \<leftarrow> PUT s3 (HDRP nb) (PACK 0 1);
       coalesce s4 bp
     }
   }"

subsection \<open>Fit search and placement\<close>

text \<open>The \<^verbatim>\<open>do ... while\<close> loop of \<^verbatim>\<open>find_fit\<close>; on a cyclic list it need not end, and
  then the result is \<open>None\<close> as well.\<close>

partial_function (option) find_fit_loop :: "heap \<Rightarrow> word32 \<Rightarrow> word32 \<Rightarrow> word32 option" where
  "find_fit_loop s asize bp = do {
     csize \<leftarrow> GET_SIZE s (HDRP bp);
     if asize \<le> csize then Some bp
     else do {
       nx \<leftarrow> NEXT s bp;
       if nx \<noteq> 0 then find_fit_loop s asize nx
       else Some NULL
     }
   }"

definition find_fit :: "heap \<Rightarrow> word32 \<Rightarrow> word32 option" where
  "find_fit s asize = do {
     first \<leftarrow> NEXT s (heap_p s);
     if \<not> first \<noteq> 0 then Some NULL
     else find_fit_loop s asize first
   }"

definition place :: "heap \<Rightarrow> word32 \<Rightarrow> word32 \<Rightarrow> heap option" where
  "place s bp asize = do {
     csize \<leftarrow> GET_SIZE s (HDRP bp);
     if csize - asize \<ge> MIN_BLKSIZE then do {
       s1 \<leftarrow> PUT s (HDRP bp) (PACK asize 1);
       f \<leftarrow> FTRP s1 bp;
       s2 \<leftarrow> PUT s1 f (PACK asize 1);
       nfbp \<leftarrow> NEXT_BLKP s2 bp;
       orig_prev \<leftarrow> PREV s2 bp;
       orig_next \<leftarrow> NEXT s2 bp;
       s3 \<leftarrow> (if orig_prev \<noteq> 0 \<and> orig_next \<noteq> 0 then do {
                t1 \<leftarrow> SETNEXT s2 nfbp orig_next;
                t2 \<leftarrow> SETPREV t1 nfbp orig_prev;
                t3 \<leftarrow> SETNEXT t2 orig_prev nfbp;
                SETPREV t3 orig_next nfbp
              } else if \<not> orig_prev \<noteq> 0 \<and> orig_next \<noteq> 0 then do {
                t1 \<leftarrow> SETNEXT s2 (heap_p s2) nfbp;
                t2 \<leftarrow> SETPREV t1 nfbp 0;
                t3 \<leftarrow> SETNEXT t2 nfbp orig_next;
                SETPREV t3 orig_next nfbp
              } else if orig_prev \<noteq> 0 \<and> \<not> orig_next \<noteq> 0 then do {
                t1 \<leftarrow> SETNEXT s2 orig_prev nfbp;
                t2 \<leftarrow> SETNEXT t1 nfbp 0;
                SETPREV t2 nfbp orig_prev
              } else do {
                t1 \<leftarrow> SETNEXT s2 (heap_p s2) nfbp;
                t2 \<leftarrow> SETNEXT t1 nfbp 0;
                SETPREV t2 nfbp 0
              });
       s4 \<leftarrow> PUT s3 (HDRP nfbp) (PACK (csize - asize) 0);
       f \<leftarrow> FTRP s4 nfbp;
       PUT s4 f (PACK (csize - asize) 0)
     } else do {
       s1 \<leftarrow> rmv_from_list s bp;
       s2 \<leftarrow> PUT s1 (HDRP bp) (PACK csize 1);
       f \<leftarrow> FTRP s2 bp;
       PUT s2 f (PACK csize 1)
     }
   }"

subsection \<open>The public operations\<close>

definition mm_init :: "heap \<Rightarrow> (heap \<times> int) option" where
  "mm_init s = do {
     let (s0, p) = mem_sbrk s (6 * WSIZE);
     let s1 = s0\<lparr>heap_p := p\<rparr>;
     if p = - 1 then Some (s1, - 1)
     else do {
       s2 \<leftarrow> PUT s1 (heap_p s1) 0;
       s3 \<leftarrow> PUT s2 (heap_p s2 + 1 * WSIZE) (PACK MIN_BLKSIZE 1);
       s4 \<leftarrow> PUT s3 (heap_p s3 + 2 * WSIZE) 0;
       s5 \<leftarrow> PUT s4 (heap_p s4 + 3 * WSIZE) 0;
       s6 \<leftarrow> PUT s5 (heap_p s5 + 4 * WSIZE) (PACK MIN_BLKSIZE 1);
       s7 \<leftarrow> PUT s6 (heap_p s6 + 5 * WSIZE) (PACK 0 1);
       let s8 = s7\<lparr>heap_p := heap_p s7 + DSIZE\<rparr>;
       (s9, r) \<leftarrow> extend_heap s8 (CHUNKSIZE div WSIZE);
       if r = NULL then Some (s9, - 1)
       else do {
         nb \<leftarrow> NEXT_BLKP s9 (heap_p s9);
         s10 \<leftarrow> SETNEXT s9 (heap_p s9) nb;
         bp \<leftarrow> NEXT s10 (heap_p s10);
         s11 \<leftarrow> SETNEXT s10 bp 0;
         s12 \<leftarrow> SETPREV s11 bp 0;
         Some (s12, 0)
       }
     }
   }"

definition adjust :: "word32 \<Rightarrow> word32" where
  "adjust sz =
     (if sz \<le> DSIZE then 2 * DSIZE
      else DSIZE * ((sz + DSIZE + (DSIZE - 1)) div DSIZE))"

definition mm_malloc :: "heap \<Rightarrow> word32 \<Rightarrow> (heap \<times> word32) option" where
  "mm_malloc s sz =
     (if sz = 0 then Some (s, NULL)
      else do {
        let adjsize = adjust sz;
        bp \<leftarrow> find_fit s adjsize;
        if bp \<noteq> NULL then do {
          s1 \<leftarrow> place s bp adjsize;
          Some (s1, bp)
        } else do {
          let extsize = MAX_of adjsize CHUNKSIZE;
          (s1, bp) \<leftarrow> extend_heap s (extsize div WSIZE);
          if bp = NULL then
            Some (s1\<lparr>out := out s1 @ [''extend_heap failed '' @ [CHR 0x0A]]\<rparr>, NULL)
          else do {
            s2 \<leftarrow> place s1 bp adjsize;
            Some (s2, bp)
          }
        }
      })"

definition mm_free :: "heap \<Rightarrow> word32 \<Rightarrow> heap option" where
  "mm_free s bp = do {
     sz \<leftarrow> GET_SIZE s (HDRP bp);
     s1 \<leftarrow> PUT s (HDRP bp) (PACK sz 0);
     f \<leftarrow> FTRP s1 bp;
     s2 \<leftarrow> PUT s1 f (PACK sz 0);
     (s3, r) \<leftarrow> coalesce s2 bp;
     Some s3
   }"

definition mm_realloc :: "heap \<Rightarrow> word32 \<Rightarrow> word32 \<Rightarrow> (heap \<times> word32) option" where
  "mm_realloc s ptr sz = do {
     let oldptr = ptr;
     let adjsize = ALIGN sz;
     (s1, newptr) \<leftarrow> mm_malloc s sz;
     if newptr = NULL then Some (s1, NULL)
     else do {
       copySize \<leftarrow> GET_SIZE s1 (HDRP oldptr);
       let copySize = (if adjsize < copySize then adjsize else copySize);
       s2 \<leftarrow> memcpy s1 newptr oldptr copySize;
       s3 \<leftarrow> mm_free s2 oldptr;
       Some (s3, newptr)
     }
   }"

section \<open>Concrete memories and states\<close>

text \<open>
  A memory given by a table of 32-bit words at word-aligned addresses, every other byte
  being zero (the backing store hands out zeroed memory). The table is kept sorted by
  address, so that running the allocator on such a memory is a computation on tables.
\<close>

fun words :: "(word32 \<times> word32) list \<Rightarrow> memory" where
  "words [] = (\<lambda>_. 0)"
| "words ((p, v) # al) = word_upd (words al) p v"

fun upd :: "word32 \<Rightarrow> word32 \<Rightarrow> (word32 \<times> word32) list \<Rightarrow> (word32 \<times> word32) list" where
  "upd p v [] = [(p, v)]"
| "upd p v ((q, w) # al) =
     (if p = q then (p, v) # al
      else if q < p then (q, w) # upd p v al
      else (p, v) # (q, w) # al)"

fun lookup :: "(word32 \<times> word32) list \<Rightarrow> word32 \<Rightarrow> word32" where
  "lookup [] p = 0"
| "lookup ((q, w) # al) p = (if p = q then w else lookup al p)"

definition aligned_keys :: "(word32 \<times> word32) list \<Rightarrow> bool" where
  "aligned_keys al = list_all (\<lambda>(q, w). q AND 3 = 0) al"

text \<open>
  The state before \<^verbatim>\<open>mm_init\<close>: an empty arena at address \<open>0x1000\<close> that may grow by
  20 MB, and \<^verbatim>\<open>heap_p = NULL\<close>; and the state \<^verbatim>\<open>mm_init\<close> makes of it: the padding word,
  the prologue block at \<open>0x1008\<close> holding the root of the free list, one free block of
  256 bytes at \<open>0x1018\<close>, and the epilogue header at \<open>0x1114\<close>.
\<close>

definition s_boot :: heap where
  "s_boot = \<lparr>mem = words [], mem_start_brk = 0x1000, heap_p = 0, mem_brk = 0x1000,
              mem_max_addr = 0x1401000, out = []\<rparr>"

definition s_init :: heap where
  "s_init = \<lparr>mem = words
          [(0x1000, 0), (0x1004, 0x11), (0x1008, 0x1018), (0x100C, 0), (0x1010, 0x11),
           (0x1014, 0x100), (0x1018, 0), (0x101C, 0), (0x1110, 0x100), (0x1114, 1)],
         mem_start_brk = 0x1000, heap_p = 0x1008, mem_brk = 0x1118,
         mem_max_addr = 0x1401000, out = []\<rparr>"

text \<open>
  The states of the trace \<^verbatim>\<open>c = mm_malloc(0xFFFFFFF8); d = mm_malloc(8); e = mm_malloc(8);
  mm_free(c)\<close> run after \<^verbatim>\<open>mm_init\<close>.
\<close>

definition s_over :: heap where
  "s_over = s_init\<lparr>mem := words
          [(0x1000, 0), (0x1004, 0x11), (0x1008, 0x1018), (0x100C, 0), (0x1010, 1),
           (0x1014, 0x100), (0x1018, 0), (0x101C, 0), (0x1110, 0x100), (0x1114, 1)]\<rparr>"

definition s_over2 :: heap where
  "s_over2 = s_init\<lparr>mem := words
          [(0x1000, 0), (0x1004, 0x11), (0x1008, 0x1028), (0x100C, 0), (0x1010, 1),
           (0x1014, 0x11), (0x1018, 0), (0x101C, 0), (0x1020, 0x11),
           (0x1024, 0xF0), (0x1028, 0), (0x102C, 0), (0x1110, 0xF0), (0x1114, 1)]\<rparr>"

definition s_over3 :: heap where
  "s_over3 = s_init\<lparr>mem := words
          [(0x1000, 0), (0x1004, 0x11), (0x1008, 0x1038), (0x100C, 0), (0x1010, 1),
           (0x1014, 0x11), (0x1018, 0), (0x101C, 0), (0x1020, 0x11),
           (0x1024, 0x11), (0x1028, 0), (0x102C, 0), (0x1030, 0x11),
           (0x1034, 0xE0), (0x1038, 0), (0x103C, 0), (0x1110, 0xE0), (0x1114, 1)]\<rparr>"

definition s_over4 :: heap where
  "s_over4 = s_init\<lparr>mem := words
          [(0x1000, 0), (0x1004, 0x11), (0x1008, 0x1018), (0x100C, 0), (0x1010, 1),
           (0x1014, 0x20), (0x1018, 0), (0x101C, 0), (0x1020, 0x10),
           (0x1024, 0x11), (0x1028, 0), (0x102C, 0), (0x1030, 0x20),
           (0x1034, 0xE0), (0x1038, 0), (0x103C, 0), (0x1110, 0xE0), (0x1114, 1)]\<rparr>"

text \<open>
  The states of the trace \<^verbatim>\<open>p = mm_malloc(8)\<close>, the caller writing the 8 bytes \<open>pattern\<close>
  to \<open>p\<close>, \<^verbatim>\<open>mm_realloc(p, 0xFFFFFFF8)\<close>, run after \<^verbatim>\<open>mm_init\<close>: after the allocation
  (\<open>s_one\<close>), after the write (\<open>s_w\<close>), and inside \<^verbatim>\<open>mm_realloc\<close> after its
  \<^verbatim>\<open>mm_malloc\<close> (\<open>s_w1\<close>), after its \<^verbatim>\<open>memcpy\<close> (\<open>s_w2\<close>) and after its \<^verbatim>\<open>mm_free\<close>
  (\<open>s_moved\<close>).
\<close>

definition pattern :: "byte list" where
  "pattern = [0x28, 0x10, 0, 0, 0, 0, 0, 0]"

definition s_one :: heap where
  "s_one = s_init\<lparr>mem := words
          [(0x1000, 0), (0x1004, 0x11), (0x1008, 0x1028), (0x100C, 0), (0x1010, 0x11),
           (0x1014, 0x11), (0x1018, 0), (0x101C, 0), (0x1020, 0x11),
           (0x1024, 0xF0), (0x1028, 0), (0x102C, 0), (0x1110, 0xF0), (0x1114, 1)]\<rparr>"

definition s_w :: heap where
  "s_w = s_init\<lparr>mem := words
          [(0x1000, 0), (0x1004, 0x11), (0x1008, 0x1028), (0x100C, 0), (0x1010, 0x11),
           (0x1014, 0x11), (0x1018, 0x1028), (0x101C, 0), (0x1020, 0x11),
           (0x1024, 0xF0), (0x1028, 0), (0x102C, 0), (0x1110, 0xF0), (0x1114, 1)]\<rparr>"

definition s_w1 :: heap where
  "s_w1 = s_init\<lparr>mem := words
          [(0x1000, 0), (0x1004, 0x11), (0x1008, 0x1028), (0x100C, 0), (0x1010, 0x11),
           (0x1014, 0x11), (0x1018, 0x1028), (0x101C, 0), (0x1020, 1),
           (0x1024, 0xF0), (0x1028, 0), (0x102C, 0), (0x1110, 0xF0), (0x1114, 1)]\<rparr>"

definition s_w2 :: heap where
  "s_w2 = s_init\<lparr>mem := words
          [(0x1000, 0), (0x1004, 0x11), (0x1008, 0x1028), (0x100C, 0), (0x1010, 0x11),
           (0x1014, 0x11), (0x1018, 0x1028), (0x101C, 0), (0x1020, 1),
           (0x1024, 0xF0), (0x1028, 0x1028), (0x102C, 0), (0x1030, 1), (0x1034, 0xF0),
           (0x1110, 0xF0), (0x1114, 1)]\<rparr>"

definition s_moved :: heap where
  "s_moved = s_init\<lparr>mem := words
          [(0x1000, 0), (0x1004, 0x11), (0x1008, 0x1018), (0x100C, 0), (0x1010, 0x11),
           (0x1014, 0x100), (0x1018, 0x1028), (0x101C, 0), (0x1020, 0x10),
           (0x1024, 0xF0), (0x1028, 0x1028), (0x102C, 0x1018), (0x1030, 1), (0x1034, 0xF0),
           (0x1110, 0x100), (0x1114, 1)]\<rparr>"

section \<open>The heap invariant\<close>

text \<open>Addresses and sizes that are multiples of 4 and of 8.\<close>

definition al4 :: "word32 \<Rightarrow> bool" where "al4 x \<longleftrightarrow> x AND 3 = 0"

definition al8 :: "word32 \<Rightarrow> bool" where "al8 x \<longleftrightarrow> x AND 7 = 0"

text \<open>
  The word a state holds at an address, and the state with a word replaced, without the
  bounds check: what \<open>GET\<close> and \<open>PUT\<close> yield when the address is mapped (lemmas
  \<open>GET_Some\<close> and \<open>PUT_Some\<close>). They serve to state what a function leaves in memory
  once it is known to return.
\<close>

definition rdw :: "heap \<Rightarrow> word32 \<Rightarrow> word32" where
  "rdw s p = word_at (mem s) p"

definition wrw :: "heap \<Rightarrow> word32 \<Rightarrow> word32 \<Rightarrow> heap" where
  "wrw s p v = s\<lparr>mem := word_upd (mem s) p v\<rparr>"

text \<open>
  The heap is described by the list of its blocks in address order, the prologue first,
  each with its size and its allocation flag. The payload of the first block is at
  \<open>heap_p\<close>, and a block of size \<open>sz\<close> at \<open>a\<close> is followed by the block at \<open>a + sz\<close>.

  \<open>cells\<close> lists the words the allocator reads and writes in the blocks: header, the two
  link words at the start of the payload, and footer. \<open>total\<close> is the number of bytes of
  the blocks, and \<open>sizes_ok\<close> says that every size is a multiple of 8 and at least the
  minimum block size.
\<close>

fun cells :: "word32 \<Rightarrow> (word32 \<times> bool) list \<Rightarrow> word32 list" where
  "cells a [] = []"
| "cells a ((sz, al) # bs) = [a - 4, a, a + 4, a + sz - 8] @ cells (a + sz) bs"

fun total :: "(word32 \<times> bool) list \<Rightarrow> nat" where
  "total [] = 0"
| "total ((sz, al) # bs) = unat sz + total bs"

fun sizes_ok :: "(word32 \<times> bool) list \<Rightarrow> bool" where
  "sizes_ok [] = True"
| "sizes_ok ((sz, al) # bs) = (16 \<le> sz \<and> sz AND 7 = 0 \<and> sizes_ok bs)"

text \<open>\<open>chain\<close>: header and footer of every block hold its size and its flag.\<close>

fun chain :: "heap \<Rightarrow> word32 \<Rightarrow> (word32 \<times> bool) list \<Rightarrow> bool" where
  "chain s a [] = True"
| "chain s a ((sz, al) # bs) =
     (rdw s (a - 4) = PACK sz (of_bool al) \<and> rdw s (a + sz - 8) = PACK sz (of_bool al)
      \<and> chain s (a + sz) bs)"

text \<open>\<open>frees\<close>: the payload addresses of the blocks whose flag is clear; \<open>no_adj\<close>: no two
  neighbours are both free.\<close>

fun frees :: "word32 \<Rightarrow> (word32 \<times> bool) list \<Rightarrow> word32 list" where
  "frees a [] = []"
| "frees a ((sz, al) # bs) = (if al then frees (a + sz) bs else a # frees (a + sz) bs)"

fun no_adj :: "(word32 \<times> bool) list \<Rightarrow> bool" where
  "no_adj (x # y # bs) = ((snd x \<or> snd y) \<and> no_adj (y # bs))"
| "no_adj bs = True"

text \<open>
  \<open>seg s prv p qs nxt\<close>: the nodes \<open>qs\<close> are a piece of a doubly linked list. The piece
  is entered through the pointer \<open>p\<close>; following next-links visits the nodes \<open>qs\<close> in
  this order and leaves with the pointer \<open>nxt\<close>; no node is null; the prev-link of the
  first node is \<open>prv\<close> and that of every other node is the node before it. The free list
  of a state is \<open>seg s 0 (root) fl 0\<close>: it starts at the root, both ends are null.
\<close>

fun seg :: "heap \<Rightarrow> word32 \<Rightarrow> word32 \<Rightarrow> word32 list \<Rightarrow> word32 \<Rightarrow> bool" where
  "seg s prv p [] nxt = (p = nxt)"
| "seg s prv p (q # qs) nxt = (p = q \<and> q \<noteq> 0 \<and> rdw s (q + 4) = prv \<and> seg s q (rdw s q) qs nxt)"

text \<open>The node before and the node behind a position of the list, with a default at
  the ends.\<close>

definition lastp :: "word32 list \<Rightarrow> word32 \<Rightarrow> word32" where
  "lastp xs prv = (if xs = [] then prv else last xs)"

definition hdp :: "word32 list \<Rightarrow> word32 \<Rightarrow> word32" where
  "hdp ys nxt = (if ys = [] then nxt else hd ys)"

text \<open>The link words of a list of nodes.\<close>

definition lcells :: "word32 list \<Rightarrow> word32 list" where
  "lcells qs = concat (map (\<lambda>q. [q, q + 4]) qs)"

text \<open>
  What the splice functions leave in memory when they return, in terms of the free list
  \<open>xs @ a # ys\<close> they work on: \<open>unlink\<close> for \<^verbatim>\<open>rmv_from_list(a)\<close>, \<open>push\<close> for
  \<^verbatim>\<open>insert_front_list(a)\<close> on the list \<open>fl\<close>, and \<open>relink\<close> for the four-way splice in
  \<^verbatim>\<open>place\<close> that puts \<open>n\<close> where \<open>a\<close> stood. The lemmas \<open>rmv_eq\<close>, \<open>insert_eq\<close> and
  \<open>relink_eq\<close> show that the functions of the source return these states.
\<close>

definition unlink :: "heap \<Rightarrow> word32 \<Rightarrow> word32 list \<Rightarrow> word32 list \<Rightarrow> heap" where
  "unlink s hp xs ys =
     (if ys = [] then wrw s (lastp xs hp) 0
      else wrw (wrw s (lastp xs hp) (hd ys)) (hd ys + 4) (lastp xs 0))"

definition push :: "heap \<Rightarrow> word32 \<Rightarrow> word32 \<Rightarrow> word32 list \<Rightarrow> heap" where
  "push s hp a fl =
     (if fl = [] then wrw (wrw (wrw s a 0) hp a) (a + 4) 0
      else wrw (wrw (wrw (wrw s a (hd fl)) (hd fl + 4) a) hp a) (a + 4) 0)"

definition relink :: "heap \<Rightarrow> word32 \<Rightarrow> word32 list \<Rightarrow> word32 \<Rightarrow> word32 list \<Rightarrow> heap" where
  "relink s hp xs n ys =
     (if xs = [] then
        (if ys = [] then wrw (wrw (wrw s hp n) n 0) (n + 4) 0
         else wrw (wrw (wrw (wrw s hp n) (n + 4) 0) n (hd ys)) (hd ys + 4) n)
      else
        (if ys = [] then wrw (wrw (wrw s (last xs) n) n 0) (n + 4) (last xs)
         else wrw (wrw (wrw (wrw s n (hd ys)) (n + 4) (last xs)) (last xs) n) (hd ys + 4) n))"

text \<open>\<open>wend\<close>: the address behind a list of blocks; \<open>tags\<close>: the headers and footers;
  \<open>starts\<close>: the payload addresses.\<close>

fun wend :: "word32 \<Rightarrow> (word32 \<times> bool) list \<Rightarrow> word32" where
  "wend a [] = a"
| "wend a ((sz, al) # bs) = wend (a + sz) bs"

fun tags :: "word32 \<Rightarrow> (word32 \<times> bool) list \<Rightarrow> word32 list" where
  "tags a [] = []"
| "tags a ((sz, al) # bs) = (a - 4) # (a + sz - 8) # tags (a + sz) bs"

fun starts :: "word32 \<Rightarrow> (word32 \<times> bool) list \<Rightarrow> word32 list" where
  "starts a [] = []"
| "starts a ((sz, al) # bs) = a # starts (a + sz) bs"

text \<open>
  The heap invariant. \<open>heap_rel s bs ls fl\<close> relates a state to the block list \<open>bs\<close>
  that its headers and footers spell out and to the free list \<open>fl\<close>, in list order from
  the root:
  \<^item> the first block is the prologue, allocated and of size 16, with its payload (the
    root of the free list) at \<open>heap_p\<close>, eight bytes or more above the start of the
    backing store, and \<open>heap_p\<close> is a multiple of 8;
  \<^item> the blocks end at \<open>mem_brk\<close>, which does not pass \<open>mem_max_addr\<close>, and the word
    before \<open>mem_brk\<close> is the epilogue header \<open>(0, allocated)\<close>;
  \<^item> every size is a multiple of 8 and at least 16, and header and footer of every
    block hold its size and flag;
  \<^item> the links from the root form the doubly linked list \<open>fl\<close>, without repetition;
  \<^item> \<open>fl\<close> holds exactly the blocks that are free in \<open>ls\<close>, and no two neighbours in
    \<open>ls\<close> are both free.

  \<open>ls\<close> has the sizes of \<open>bs\<close>. It differs from \<open>bs\<close> only inside \<^verbatim>\<open>mm_free\<close>, between
  the moment the flag of a block is cleared and the moment \<^verbatim>\<open>coalesce\<close> has put the
  block on the list: there the block is free in \<open>bs\<close> and still allocated in \<open>ls\<close>.
  \<open>heap_ok\<close> is the invariant between calls, where both agree.
\<close>

definition heap_rel :: "heap \<Rightarrow> (word32 \<times> bool) list \<Rightarrow> (word32 \<times> bool) list \<Rightarrow> word32 list \<Rightarrow> bool" where
  "heap_rel s bs ls fl \<longleftrightarrow>
     take 1 bs = [(16, True)] \<and> take 1 ls = [(16, True)] \<and> map fst ls = map fst bs
     \<and> heap_p s AND 7 = 0 \<and> unat (mem_start_brk s) + 8 \<le> unat (heap_p s)
     \<and> unat (mem_brk s) \<le> unat (mem_max_addr s)
     \<and> sizes_ok bs
     \<and> unat (heap_p s) + total bs = unat (mem_brk s)
     \<and> chain s (heap_p s) bs
     \<and> rdw s (mem_brk s - 4) = PACK 0 1
     \<and> seg s 0 (rdw s (heap_p s)) fl 0
     \<and> distinct fl \<and> set fl = set (frees (heap_p s) ls)
     \<and> no_adj ls"

definition heap_ok :: "heap \<Rightarrow> (word32 \<times> bool) list \<Rightarrow> word32 list \<Rightarrow> bool" where
  "heap_ok s bs fl = heap_rel s bs bs fl"

text \<open>\<open>size_of hp bs q\<close>: the size of the block of \<open>bs\<close> whose payload is at \<open>q\<close>;
  \<open>first_fit\<close>: the first node of a list whose block has room for the request, null when
  there is none.\<close>

fun size_of :: "word32 \<Rightarrow> (word32 \<times> bool) list \<Rightarrow> word32 \<Rightarrow> word32" where
  "size_of a [] q = 0"
| "size_of a ((sz, al) # bs) q = (if q = a then sz else size_of (a + sz) bs q)"

definition first_fit :: "word32 \<Rightarrow> (word32 \<times> bool) list \<Rightarrow> word32 \<Rightarrow> word32 list \<Rightarrow> word32" where
  "first_fit hp bs asize fl =
     (case List.find (\<lambda>q. asize \<le> size_of hp bs q) fl of Some q \<Rightarrow> q | None \<Rightarrow> NULL)"

text \<open>
  The states that \<^verbatim>\<open>p = mm_malloc(8); q = mm_malloc(8); mm_free(p)\<close> reach after \<^verbatim>\<open>mm_init\<close>:
  \<open>s_one\<close> above, then \<open>s_two\<close>, then \<open>s_three\<close>, whose blocks behind the prologue are
  \<open>0x1018\<close> (16, free), \<open>0x1028\<close> (16, allocated) and \<open>0x1038\<close> (224, free), and whose free
  list is \<open>0x1018\<close>, \<open>0x1038\<close>.
\<close>

definition s_two :: heap where
  "s_two = s_init\<lparr>mem := words
          [(0x1000, 0), (0x1004, 0x11), (0x1008, 0x1038), (0x100C, 0), (0x1010, 0x11),
           (0x1014, 0x11), (0x1018, 0), (0x101C, 0), (0x1020, 0x11),
           (0x1024, 0x11), (0x1028, 0), (0x102C, 0), (0x1030, 0x11),
           (0x1034, 0xE0), (0x1038, 0), (0x103C, 0), (0x1110, 0xE0), (0x1114, 1)]\<rparr>"

definition s_three :: heap where
  "s_three = s_init\<lparr>mem := words
          [(0x1000, 0), (0x1004, 0x11), (0x1008, 0x1018), (0x100C, 0), (0x1010, 0x11),
           (0x1014, 0x10), (0x1018, 0x1038), (0x101C, 0), (0x1020, 0x10),
           (0x1024, 0x11), (0x1028, 0), (0x102C, 0), (0x1030, 0x11),
           (0x1034, 0xE0), (0x1038, 0), (0x103C, 0x1018), (0x1110, 0xE0), (0x1114, 1)]\<rparr>"

text \<open>
  \<open>heap_inv\<close> is the part of the invariant that does not speak of the flags: the blocks
  \<open>bs\<close> tile the arena with matching headers and footers, and the links from the root
  form the list \<open>fl\<close> of payload addresses of blocks. It holds at every point inside
  \<^verbatim>\<open>coalesce\<close>, also between the removal of a neighbour and the insertion of the merged
  block. \<open>wsum\<close> is the sum of the sizes of a list of blocks, as the code computes it.
\<close>

definition heap_inv :: "heap \<Rightarrow> (word32 \<times> bool) list \<Rightarrow> word32 list \<Rightarrow> bool" where
  "heap_inv s bs fl \<longleftrightarrow>
     take 1 bs = [(16, True)]
     \<and> heap_p s AND 7 = 0 \<and> unat (mem_start_brk s) + 8 \<le> unat (heap_p s)
     \<and> unat (mem_brk s) \<le> unat (mem_max_addr s)
     \<and> sizes_ok bs
     \<and> unat (heap_p s) + total bs = unat (mem_brk s)
     \<and> chain s (heap_p s) bs
     \<and> rdw s (mem_brk s - 4) = PACK 0 1
     \<and> seg s 0 (rdw s (heap_p s)) fl 0
     \<and> distinct fl \<and> set fl \<subseteq> set (starts (heap_p s) bs) \<and> heap_p s \<notin> set fl"

fun wsum :: "(word32 \<times> bool) list \<Rightarrow> word32" where
  "wsum [] = 0"
| "wsum ((sz, al) # bs) = sz + wsum bs"

text \<open>
  The four cases of the spec for a block of size \<open>sz\<close> at \<open>bp\<close>, between the blocks \<open>pre\<close>
  before it and the blocks \<open>post\<close> behind it, with the free list \<open>fl\<close>: the blocks, the free
  list and the address of the merged block that \<^verbatim>\<open>coalesce\<close> is to produce. Behind the last
  block comes the epilogue, which counts as allocated.
\<close>

definition coalesced ::
  "(word32 \<times> bool) list \<Rightarrow> word32 \<Rightarrow> (word32 \<times> bool) list \<Rightarrow> word32 \<Rightarrow> word32 list
     \<Rightarrow> (word32 \<times> bool) list \<times> word32 list \<times> word32" where
  "coalesced pre sz post bp fl =
     (let prev_free = \<not> snd (last pre);
          next_free = (post \<noteq> [] \<and> \<not> snd (hd post));
          psz = fst (last pre);
          nsz = fst (hd post)
      in if \<not> prev_free \<and> \<not> next_free then
           (pre @ (sz, False) # post, bp # fl, bp)
         else if \<not> prev_free \<and> next_free then
           (pre @ (sz + nsz, False) # tl post, bp # remove1 (bp + sz) fl, bp)
         else if prev_free \<and> \<not> next_free then
           (butlast pre @ (sz + psz, False) # post,
            (bp - psz) # remove1 (bp - psz) fl, bp - psz)
         else
           (butlast pre @ (sz + (psz + nsz), False) # tl post,
            (bp - psz) # remove1 (bp + sz) (remove1 (bp - psz) fl), bp - psz))"

text \<open>
  \<^verbatim>\<open>mm_free(0x1028)\<close> on \<open>s_three\<close>: \<open>s_mid\<close> is the state in which it calls
  \<^verbatim>\<open>coalesce\<close>, the flag of the block cleared, and \<open>s_four\<close> the state it returns, with
  one free block of 256 bytes behind the prologue.
\<close>

definition s_mid :: heap where
  "s_mid = s_init\<lparr>mem := words
          [(0x1000, 0), (0x1004, 0x11), (0x1008, 0x1018), (0x100C, 0), (0x1010, 0x11),
           (0x1014, 0x10), (0x1018, 0x1038), (0x101C, 0), (0x1020, 0x10),
           (0x1024, 0x10), (0x1028, 0), (0x102C, 0), (0x1030, 0x10),
           (0x1034, 0xE0), (0x1038, 0), (0x103C, 0x1018), (0x1110, 0xE0), (0x1114, 1)]\<rparr>"

definition s_four :: heap where
  "s_four = s_init\<lparr>mem := words
          [(0x1000, 0), (0x1004, 0x11), (0x1008, 0x1018), (0x100C, 0), (0x1010, 0x11),
           (0x1014, 0x100), (0x1018, 0), (0x101C, 0), (0x1020, 0x10),
           (0x1024, 0x10), (0x1028, 0), (0x102C, 0), (0x1030, 0x10),
           (0x1034, 0xE0), (0x1038, 0), (0x103C, 0), (0x1110, 0x100), (0x1114, 1)]\<rparr>"

section \<open>Words in a byte memory\<close>

lemma word_at_word_upd_same: "word_at (word_upd m p v) p = v"
proof (rule bit_word_eqI)
  fix n assume n: "n < LENGTH(32)"
  consider "n < 8" | "8 \<le> n" "n < 16" | "16 \<le> n" "n < 24" | "24 \<le> n" by linarith
  then show "bit (word_at (word_upd m p v) p) n = bit v n"
    using n by cases (auto simp add: word_at_def word_upd_def bit_simps)
qed

lemma apart_sym: "apart p q \<Longrightarrow> apart q p"
  unfolding apart_def by (simp add: eq_commute) 

lemma apartI:
  assumes "unat q + 4 \<le> unat p \<or> unat p + 4 \<le> unat q" "unat p + 4 \<le> 2 ^ 32" "unat q + 4 \<le> 2 ^ 32"
  shows "apart p q"
proof -
  have "p + i \<noteq> q + j" if "i \<in> {0,1,2,3}" "j \<in> {0,1,2,3}" for i j :: word32
  proof
    assume "p + i = q + j"
    then have "unat (p + i) = unat (q + j)" by simp
    moreover have "unat (q + j) = unat q + unat j" using that assms by (auto simp: unat_word_ariths)
    moreover have "unat (p + i) = unat p + unat i" using that assms by (auto simp: unat_word_ariths)
    ultimately show False using that assms by auto
  qed
  then show ?thesis unfolding apart_def by blast
qed

lemma word_at_word_upd_apart: "apart p q \<Longrightarrow> word_at (word_upd m p v) q = word_at m q"
  unfolding apart_def by (simp add: word_at_def word_upd_def eq_commute)

lemma word_upd_word_upd_same: "word_upd (word_upd m p v) p w = word_upd m p w"
  by (simp add: word_upd_def fun_eq_iff)

lemma word_upd_word_upd_swap: "apart p q \<Longrightarrow> word_upd (word_upd m p v) q w = word_upd (word_upd m q w) p v"
  unfolding apart_def by (auto simp add: word_upd_def fun_eq_iff)

lemma unat_and_3: "unat ((p::word32) AND 3) = unat p mod 4"
proof -
  have "unat (take_bit 2 p) = unat p mod 4"
    by (simp only: unsigned_take_bit_eq) (simp add: take_bit_eq_mod)
  then show ?thesis by (simp add: take_bit_eq_mask mask_eq_exp_minus_1)
qed

lemma aligned_dvd: "((p::word32) AND 3 = 0) = (4 dvd unat p)"
  using unat_and_3[of p] unfolding unat_eq_0[symmetric] by presburger

lemma apart_aligned:
  assumes "p AND 3 = 0" "q AND 3 = 0" "p \<noteq> q"
  shows "apart p q"
proof (rule apartI)
  have d: "4 dvd unat p" "4 dvd unat q" using assms by (simp_all add: aligned_dvd)
  have b: "unat p < 4294967296" "unat q < 4294967296"
    using unsigned_less[of p] unsigned_less[of q] by simp_all
  have n: "unat p \<noteq> unat q" using assms(3) by (simp add: word_unat_eq_iff)
  show "unat q + 4 \<le> unat p \<or> unat p + 4 \<le> unat q" using d n by presburger
  have "unat p + 4 \<le> 4294967296" using d(1) b(1) by presburger
  then show "unat p + 4 \<le> 2 ^ 32" by simp
  have "unat q + 4 \<le> 4294967296" using d(2) b(2) by presburger
  then show "unat q + 4 \<le> 2 ^ 32" by simp
qed

section \<open>Bytes and words\<close>

lemma byte0_word_at: "ucast (word_at m p) = m p"
  by (rule bit_word_eqI) (auto simp add: word_at_def bit_simps)

lemma byte1_word_at: "ucast (drop_bit 8 (word_at m p)) = m (p + 1)"
  by (rule bit_word_eqI) (auto simp add: word_at_def bit_simps dest: bit_imp_le_length)

lemma byte2_word_at: "ucast (drop_bit 16 (word_at m p)) = m (p + 2)"
  by (rule bit_word_eqI) (auto simp add: word_at_def bit_simps dest: bit_imp_le_length)

lemma byte3_word_at: "ucast (drop_bit 24 (word_at m p)) = m (p + 3)"
  by (rule bit_word_eqI) (auto simp add: word_at_def bit_simps dest: bit_imp_le_length)

lemma copy_bytes_0: "copy_bytes m dst src 0 = m"
  by (simp add: copy_bytes_def)

lemma copy_bytes_step:
  assumes "unat n + 4 < 2 ^ 32"
  shows "copy_bytes m dst src (n + 4) = word_upd (copy_bytes m dst src n) (dst + n) (word_at m (src + n))"
proof (rule ext)
  fix a
  define d where "d = a - dst"
  have a: "a = dst + d" by (simp add: d_def)
  have n4: "unat (n + 4) = unat n + 4" using assms by (simp add: unat_word_ariths)
  have ni: "unat (n + 1) = unat n + 1" "unat (n + 2) = unat n + 2" "unat (n + 3) = unat n + 3"
    using assms by (simp_all add: unat_word_ariths)
  have e: "(d = n) = (unat d = unat n)" "(d = n + 1) = (unat d = unat n + 1)"
    "(d = n + 2) = (unat d = unat n + 2)" "(d = n + 3) = (unat d = unat n + 3)"
    using ni by (simp_all add: word_unat_eq_iff[of d])
  have r: "dst + d - dst = d" by simp
  consider "unat d < unat n" | "unat d = unat n" | "unat d = unat n + 1" | "unat d = unat n + 2"
    | "unat d = unat n + 3" | "unat n + 4 \<le> unat d" by linarith
  then show "copy_bytes m dst src (n + 4) a = word_upd (copy_bytes m dst src n) (dst + n) (word_at m (src + n)) a"
  proof cases
    case 1 then show ?thesis unfolding a by (simp add: copy_bytes_def word_upd_def n4 e r)
  next
    case 2 
    then have eq: "d = n" by (simp add: word_unat_eq_iff)
    show ?thesis unfolding a eq by (simp add: copy_bytes_def word_upd_def n4 ni byte0_word_at add.assoc)
  next
    case 3 
    then have eq: "d = n + 1" using ni by (simp add: word_unat_eq_iff)
    show ?thesis unfolding a eq by (simp add: copy_bytes_def word_upd_def n4 ni byte1_word_at add.assoc)
  next
    case 4 
    then have eq: "d = n + 2" using ni by (simp add: word_unat_eq_iff)
    show ?thesis unfolding a eq by (simp add: copy_bytes_def word_upd_def n4 ni byte2_word_at add.assoc)
  next
    case 5 
    then have eq: "d = n + 3" using ni by (simp add: word_unat_eq_iff)
    show ?thesis unfolding a eq by (simp add: copy_bytes_def word_upd_def n4 ni byte3_word_at add.assoc)
  next
    case 6 then show ?thesis unfolding a by (simp add: copy_bytes_def word_upd_def n4 e r)
  qed
qed

lemma copy_bytes_16:
  "copy_bytes m dst src 16 =
     word_upd (word_upd (word_upd (word_upd m dst (word_at m src)) (dst + 4) (word_at m (src + 4)))
       (dst + 8) (word_at m (src + 8))) (dst + 12) (word_at m (src + 12))"
  using copy_bytes_step[of 0 m dst src] copy_bytes_step[of 4 m dst src] copy_bytes_step[of 8 m dst src]
    copy_bytes_step[of 12 m dst src]
  by (simp add: copy_bytes_0)

lemma write_pattern:
  "write_bytes m p [0x28, 0x10, 0, 0, 0, 0, 0, 0] = word_upd (word_upd m p 0x1028) (p + 4) 0"
proof -
  have h: "(4136 :: byte) = 40" by (simp add: word_unat_eq_iff)
  show ?thesis by (simp add: word_upd_def add.assoc) (simp only: h)
qed

lemma read_bytes_nth: "i < n \<Longrightarrow> read_bytes m p n ! i = m (p + of_nat i)"
  by (simp add: read_bytes_def)

section \<open>Running the allocator on table memories\<close>

lemma aligned_keys_simps [simp]:
  "aligned_keys [] = True"
  "aligned_keys ((q, w) # al) = (q AND 3 = 0 \<and> aligned_keys al)"
  by (simp_all add: aligned_keys_def)

lemma aligned_keys_upd: "aligned_keys al \<Longrightarrow> p AND 3 = 0 \<Longrightarrow> aligned_keys (upd p v al)"
  by (induction al) auto

lemma word_upd_words:
  "aligned_keys al \<Longrightarrow> p AND 3 = 0 \<Longrightarrow> word_upd (words al) p v = words (upd p v al)"
proof (induction al)
  case Nil
  then show ?case by simp
next
  case (Cons a al)
  obtain q w where a: "a = (q, w)" by (cases a)
  show ?case
  proof (cases "p = q")
    case True
    then show ?thesis using a by (simp add: word_upd_word_upd_same)
  next
    case False
    then have ap: "apart q p" using Cons.prems a by (auto intro: apart_aligned)
    show ?thesis
    proof (cases "q < p")
      case True
      have "word_upd (words (a # al)) p v = word_upd (word_upd (words al) p v) q w"
        using a ap by (simp add: word_upd_word_upd_swap)
      also have "\<dots> = word_upd (words (upd p v al)) q w"
        using Cons a by simp
      finally show ?thesis using a False True by simp
    next
      case nl: False
      then show ?thesis using a False by simp
    qed
  qed
qed

lemma word_at_words:
  "aligned_keys al \<Longrightarrow> p AND 3 = 0 \<Longrightarrow> word_at (words al) p = lookup al p"
proof (induction al)
  case Nil
  then show ?case by (simp add: word_at_def)
next
  case (Cons a al)
  obtain q w where a: "a = (q, w)" by (cases a)
  show ?case
  proof (cases "p = q")
    case True
    then show ?thesis using a by (simp add: word_at_word_upd_same)
  next
    case False
    then have ap: "apart q p" using Cons.prems a by (auto intro: apart_aligned)
    then show ?thesis using a False Cons by (simp add: word_at_word_upd_apart)
  qed
qed

declare words.simps [simp del]

lemma bind_weak_cong: "m = m' \<Longrightarrow> Option.bind m f = Option.bind m' f"
  by simp

lemmas macros = PUT_def PACK_def HDRP_def FTRP_def GET_SIZE_def GET_def NEXT_BLKP_def
  GET_ALLOC_def PREV_BLKP_def NEXT_def SETNEXT_def SETPREV_def PREV_def mapped_def

lemmas exec = mm_init_def mem_sbrk_def Let_def macros extend_heap_def coalesce_def
  insert_front_list_def word_upd_words word_at_words mm_malloc_def adjust_def MAX_of_def
  find_fit_def find_fit_loop.simps place_def rmv_from_list_def mm_free_def

lemmas weak = bind_weak_cong let_weak_cong prod.case_cong_weak option.case_cong_weak

lemma mm_init_boot: "mm_init s_boot = Some (s_init, 0)"
  by (simp add: exec s_boot_def s_init_def cong: weak)

lemma over_step1: "mm_malloc s_init 0xFFFFFFF8 = Some (s_over, 0x1018)"
  by (simp add: exec s_init_def s_over_def cong: weak)

lemma over_step2: "mm_malloc s_over 8 = Some (s_over2, 0x1018)"
  by (simp add: exec s_init_def s_over_def s_over2_def cong: weak)

lemma over_step3: "mm_malloc s_over2 8 = Some (s_over3, 0x1028)"
  by (simp add: exec s_init_def s_over2_def s_over3_def cong: weak)

lemma over_step4: "mm_free s_over3 0x1018 = Some s_over4"
  by (simp add: exec s_init_def s_over3_def s_over4_def cong: weak)

lemma one_step: "mm_malloc s_init 8 = Some (s_one, 0x1018)"
  by (simp add: exec s_init_def s_one_def cong: weak)

lemma write_step: "s_one\<lparr>mem := write_bytes (mem s_one) 0x1018 pattern\<rparr> = s_w"
  by (simp add: s_one_def s_w_def s_init_def pattern_def write_pattern word_upd_words
      del: write_bytes.simps)

lemma realloc_step1: "mm_malloc s_w 0xFFFFFFF8 = Some (s_w1, 0x1028)"
  by (simp add: exec s_init_def s_w_def s_w1_def cong: weak)

lemma realloc_step2: "memcpy s_w1 0x1028 0x1018 16 = Some s_w2"
  by (simp add: memcpy_def mapped_def s_init_def s_w1_def s_w2_def copy_bytes_16
      word_upd_words word_at_words)

lemma realloc_step3: "mm_free s_w2 0x1018 = Some s_moved"
  by (simp add: exec s_init_def s_w2_def s_moved_def cong: weak)

lemma realloc_copy_size: "GET_SIZE s_w1 (HDRP 0x1018) = Some 16"
  by (simp add: macros word_at_words s_w1_def s_init_def)

lemma realloc_overflow: "mm_realloc s_w 0x1018 0xFFFFFFF8 = Some (s_moved, 0x1028)"
  by (simp add: mm_realloc_def realloc_step1 realloc_copy_size ALIGN_def realloc_step2
      realloc_step3)

lemma byte_words: "aligned_keys al \<Longrightarrow> p AND 3 = 0 \<Longrightarrow> words al p = ucast (lookup al p)"
  using word_at_words[of al p] byte0_word_at[of "words al" p] by simp

section \<open>The size adjustment wraps around\<close>

text \<open>
  \<^verbatim>\<open>mm_malloc\<close> computes \<^verbatim>\<open>DSIZE * ((size + DSIZE + (DSIZE-1)) / DSIZE)\<close> in \<^verbatim>\<open>size_t\<close>
  and never checks the sum. Below \<open>2 ^ 32 - 15\<close> the result is the size plus the
  overhead, rounded up to a multiple of 8; from there on the sum wraps and the adjusted
  size is 0 or 8.
\<close>

lemma adjust_no_wrap:
  assumes "sz \<le> 0xFFFFFFF0"
  shows "unat (adjust sz) mod 8 = 0" and "16 \<le> unat (adjust sz)"
    and "unat sz + 8 \<le> unat (adjust sz)"
proof -
  have b: "unat sz \<le> 4294967280" using assms by (simp add: word_le_nat_alt)
  have s: "unat (sz + 8 + 7) = unat sz + 15"
    using b by (simp add: unat_word_ariths)
  have d: "unat ((sz + 8 + 7) div 8) = (unat sz + 15) div 8"
    using s by (simp add: unat_div)
  have m: "unat (8 * ((sz + 8 + 7) div 8)) = 8 * ((unat sz + 15) div 8)"
    using d b by (simp add: unat_word_ariths)
  show "unat (adjust sz) mod 8 = 0" using m by (simp add: adjust_def)
  show "16 \<le> unat (adjust sz)"
    using m by (auto simp add: adjust_def word_le_nat_alt)
  show "unat sz + 8 \<le> unat (adjust sz)"
    using m by (auto simp add: adjust_def word_le_nat_alt)
qed

lemma adjust_wraps: "adjust 0xFFFFFFF8 = 0"
  by (simp add: adjust_def)

text \<open>
  C6 (the code departs from the claim). On the state \<^verbatim>\<open>mm_init\<close> leaves, the request
  \<^verbatim>\<open>mm_malloc(0xFFFFFFF8)\<close> is adjusted to 0, every free block fits, and the call returns
  the non-null address \<open>0x1018\<close>. The address is a multiple of 8, but the block behind it
  still has the header \<open>(256, free)\<close> and is still the head of the free list, and the
  whole arena from that address on has 256 bytes, far fewer than the 4294967288
  requested. The footer written by \<^verbatim>\<open>place\<close> landed on the prologue footer.
\<close>

theorem mm_malloc_overflow_returns_free_block:
  "adjust 0xFFFFFFF8 = 0
   \<and> mm_malloc s_init 0xFFFFFFF8 = Some (s_over, 0x1018)
   \<and> (0x1018 :: word32) \<noteq> NULL \<and> (0x1018 :: word32) AND 7 = 0
   \<and> GET s_over (HDRP 0x1018) = Some (PACK 256 0)
   \<and> NEXT s_over (heap_p s_over) = Some 0x1018
   \<and> FTRP s_over (heap_p s_over) = Some 0x1010
   \<and> GET s_over 0x1010 = Some (PACK 0 1)
   \<and> unat (mem_brk s_over) - unat (0x1018 :: word32) < unat (0xFFFFFFF8 :: word32)"
  using over_step1 adjust_wraps
  by (simp add: macros word_at_words s_init_def s_over_def)

text \<open>
  C1 (the code departs from the claim). After \<^verbatim>\<open>mm_init\<close>, the calls
  \<^verbatim>\<open>c = mm_malloc(0xFFFFFFF8)\<close>, \<^verbatim>\<open>d = mm_malloc(8)\<close>, \<^verbatim>\<open>e = mm_malloc(8)\<close>, \<^verbatim>\<open>mm_free(c)\<close>
  respect every precondition: each pointer freed was returned by an allocation and not
  freed since. In the state they reach, the first block behind the prologue, at
  \<open>0x1018\<close>, has the header \<open>(32, free)\<close>, and the block physically after it, at
  \<open>0x1038\<close>, has the header \<open>(224, free)\<close>: two adjacent blocks are free.
\<close>

theorem overflow_trace_adjacent_free_blocks:
  "mm_init s_boot = Some (s_init, 0)
   \<and> mm_malloc s_init 0xFFFFFFF8 = Some (s_over, 0x1018)
   \<and> mm_malloc s_over 8 = Some (s_over2, 0x1018)
   \<and> mm_malloc s_over2 8 = Some (s_over3, 0x1028)
   \<and> mm_free s_over3 0x1018 = Some s_over4
   \<and> NEXT_BLKP s_over4 (heap_p s_over4) = Some 0x1018
   \<and> GET s_over4 (HDRP 0x1018) = Some (PACK 32 0)
   \<and> NEXT_BLKP s_over4 0x1018 = Some 0x1038
   \<and> GET s_over4 (HDRP 0x1038) = Some (PACK 224 0)"
  using mm_init_boot over_step1 over_step2 over_step3 over_step4
  by (simp add: macros word_at_words s_init_def s_over4_def)

text \<open>
  C2 (the code departs from the claim). In the state the same trace reaches, the free list
  is the single block \<open>0x1018\<close>: the root points to it and its next-link is null. The
  block at \<open>0x1038\<close>, which the arena walk reaches right after it, has its allocation flag
  clear and is not on the list.
\<close>

theorem overflow_trace_free_block_not_listed:
  "mm_init s_boot = Some (s_init, 0)
   \<and> mm_malloc s_init 0xFFFFFFF8 = Some (s_over, 0x1018)
   \<and> mm_malloc s_over 8 = Some (s_over2, 0x1018)
   \<and> mm_malloc s_over2 8 = Some (s_over3, 0x1028)
   \<and> mm_free s_over3 0x1018 = Some s_over4
   \<and> NEXT s_over4 (heap_p s_over4) = Some 0x1018
   \<and> NEXT s_over4 0x1018 = Some NULL
   \<and> NEXT_BLKP s_over4 (heap_p s_over4) = Some 0x1018
   \<and> NEXT_BLKP s_over4 0x1018 = Some 0x1038
   \<and> GET_ALLOC s_over4 (HDRP 0x1038) = Some 0"
  using mm_init_boot over_step1 over_step2 over_step3 over_step4
  by (simp add: macros word_at_words s_init_def s_over4_def)

text \<open>
  C7 (the code departs from the claim). After \<^verbatim>\<open>mm_init\<close>, \<^verbatim>\<open>mm_malloc(8)\<close> returns
  \<open>0x1018\<close>; the caller writes the 8 bytes \<open>pattern\<close> there and reads them back; then
  \<^verbatim>\<open>mm_realloc(0x1018, 0xFFFFFFF8)\<close> returns the non-null address \<open>0x1028\<close>, and the
  first 8 bytes there are not \<open>pattern\<close>: the byte at offset 4 is \<open>0x18\<close>, not 0. The
  new size is adjusted to 0, so the region returned is the free block at the head of the
  free list, still on the list; \<^verbatim>\<open>memcpy\<close> puts the pattern over its links, and
  \<^verbatim>\<open>mm_free\<close> of the old block, linking itself in front, stores the old block's address
  into the prev-link at offset 4.
\<close>

theorem realloc_overflow_loses_content:
  "mm_malloc s_init 8 = Some (s_one, 0x1018)
   \<and> length pattern = 8
   \<and> read_bytes (write_bytes (mem s_one) 0x1018 pattern) 0x1018 8 = pattern
   \<and> (8 :: word32) \<le> 0xFFFFFFF8
   \<and> mm_realloc (s_one\<lparr>mem := write_bytes (mem s_one) 0x1018 pattern\<rparr>) 0x1018 0xFFFFFFF8
       = Some (s_moved, 0x1028)
   \<and> read_bytes (mem s_moved) 0x1028 8 \<noteq> pattern
   \<and> read_bytes (mem s_moved) 0x1028 8 ! 4 = 0x18"
proof -
  have r: "read_bytes (mem s_moved) 0x1028 8 ! 4 = 0x18" "pattern ! 4 = 0"
    by (simp_all add: read_bytes_nth s_moved_def s_init_def byte_words pattern_def)
  have n: "read_bytes (mem s_moved) 0x1028 8 \<noteq> pattern"
  proof
    assume "read_bytes (mem s_moved) 0x1028 8 = pattern"
    then have "read_bytes (mem s_moved) 0x1028 8 ! 4 = pattern ! 4" by simp
    with r show False by simp
  qed
  have b: "read_bytes (write_bytes (mem s_one) 0x1018 pattern) 0x1018 8 = pattern"
    by (simp add: read_bytes_def pattern_def upt_rec add.assoc)
  show ?thesis
    using one_step realloc_overflow write_step r n b by (simp add: pattern_def)
qed

section \<open>Reallocating the null pointer\<close>

text \<open>
  \<^verbatim>\<open>mm_realloc\<close> has no test for a null old pointer. The header of the old block is
  looked for at \<^verbatim>\<open>HDRP(NULL)\<close>, the address \<open>0xFFFFFFFC\<close>, and no memory of the backing
  store reaches the last four bytes of the address space.
\<close>

lemma HDRP_NULL_unmapped: "GET_SIZE s (HDRP NULL) = None"
proof -
  have "unat (mem_max_addr s) < 4294967296" using unsigned_less[of "mem_max_addr s"] by simp
  moreover have "unat (- 4 :: word32) = 4294967292" by simp
  ultimately have "\<not> mapped s (- 4) 4" by (simp add: mapped_def)
  then show ?thesis by (simp add: GET_SIZE_def GET_def HDRP_def)
qed

text \<open>
  C8 (the code departs from the claim). On the state \<^verbatim>\<open>mm_init\<close> leaves,
  \<^verbatim>\<open>mm_malloc(8)\<close> returns the address \<open>0x1018\<close>. \<^verbatim>\<open>mm_realloc(NULL, 8)\<close> makes the same
  allocation first, and then, the result not being null, goes on to load the size of
  the old block from \<^verbatim>\<open>HDRP(NULL)\<close>, which is the address \<open>0xFFFFFFFC\<close> outside the
  memory of the backing store: the call does not return an address, it is stopped there.
  The copy and the free are not skipped; the load that prepares them faults.
\<close>

theorem mm_realloc_null_faults:
  "mm_malloc s_init 8 = Some (s_one, 0x1018)
   \<and> HDRP NULL = 0xFFFFFFFC
   \<and> \<not> mapped s_one (HDRP NULL) 4
   \<and> GET_SIZE s_one (HDRP NULL) = None
   \<and> mm_realloc s_init NULL 8 = None"
  using one_step HDRP_NULL_unmapped[of s_one]
  by (simp add: mm_realloc_def HDRP_def mapped_def s_one_def s_init_def)

section \<open>Alignment and word arithmetic\<close>

lemma unat_and_7: "unat ((p::word32) AND 7) = unat p mod 8"
proof -
  have "unat (take_bit 3 p) = unat p mod 8"
    by (simp only: unsigned_take_bit_eq) (simp add: take_bit_eq_mod)
  then show ?thesis by (simp add: take_bit_eq_mask mask_eq_exp_minus_1)
qed

lemma al4_dvd: "al4 x = (4 dvd unat x)"
  unfolding al4_def using unat_and_3[of x] unfolding unat_eq_0[symmetric] by presburger

lemma al8_dvd: "al8 x = (8 dvd unat x)"
  unfolding al8_def using unat_and_7[of x] unfolding unat_eq_0[symmetric] by presburger

lemma unat_add32: "unat ((x::word32) + y) = (unat x + unat y) mod 4294967296"
  by (simp add: unat_word_ariths)

lemma unat_sub32: "unat ((x::word32) - y) = (unat x + 4294967296 - unat y) mod 4294967296"
proof -
  have "unat (x - y) = (if unat y \<le> unat x then unat x - unat y else unat x + 2 ^ 32 - unat y)"
    using unat_sub_if_size[of x y] by (simp add: word_size)
  moreover have "unat x < 4294967296" "unat y < 4294967296"
    using unsigned_less[of x] unsigned_less[of y] by simp_all
  ultimately show ?thesis by (auto simp: mod_if)
qed

lemma al8_al4: "al8 x \<Longrightarrow> al4 x"
  unfolding al4_dvd al8_dvd by presburger

lemma dvd_mod32: "(k::nat) dvd 4294967296 \<Longrightarrow> k dvd m \<Longrightarrow> k dvd m mod 4294967296"
  by (simp add: dvd_mod_iff)

lemma al4_add: "al4 x \<Longrightarrow> al4 y \<Longrightarrow> al4 (x + y)"
  unfolding al4_dvd unat_add32 by (rule dvd_mod32) simp_all

lemma al4_sub: "al4 x \<Longrightarrow> al4 y \<Longrightarrow> al4 (x - y)"
  unfolding al4_dvd unat_sub32 by (rule dvd_mod32) (simp_all add: dvd_diff_nat)

lemma al8_add: "al8 x \<Longrightarrow> al8 y \<Longrightarrow> al8 (x + y)"
  unfolding al8_dvd unat_add32 by (rule dvd_mod32) simp_all

lemma al8_sub: "al8 x \<Longrightarrow> al8 y \<Longrightarrow> al8 (x - y)"
  unfolding al8_dvd unat_sub32 by (rule dvd_mod32) (simp_all add: dvd_diff_nat)

lemma al_num: "al4 0" "al4 4" "al4 8" "al8 8" "al8 0" "al8 16" "al4 16" "al4 12"
  by (simp_all add: al4_def al8_def)

lemma al8_bits: "al8 sz \<Longrightarrow> n < 3 \<Longrightarrow> \<not> bit sz n"
proof
  assume a: "al8 sz" and n: "n < 3" and b: "bit sz n"
  have "sz AND mask 3 = 0" using a by (simp add: al8_def mask_eq_exp_minus_1)
  then have "take_bit 3 sz = 0" by (simp add: take_bit_eq_mask)
  then have "\<not> bit (take_bit 3 sz) n" by simp
  then show False using n b by (simp add: bit_take_bit_iff)
qed

lemma PACK_size: "al8 sz \<Longrightarrow> PACK sz (of_bool al) AND NOT 7 = sz"
proof -
  assume a: "al8 sz"
  have m: "(7::word32) = mask 3" by (simp add: mask_eq_exp_minus_1)
  show ?thesis unfolding m PACK_def
    by (rule bit_word_eqI) (use al8_bits[OF a] in \<open>auto simp add: bit_simps\<close>)
qed

lemma PACK_alloc: "al8 sz \<Longrightarrow> PACK sz (of_bool al) AND 1 = of_bool al"
proof -
  assume a: "al8 sz"
  show ?thesis unfolding PACK_def
    by (rule bit_word_eqI) (use al8_bits[OF a, of 0] in \<open>auto simp add: bit_simps\<close>)
qed

lemma PACK_0: "PACK sz 0 = sz" "PACK sz 1 = PACK sz (of_bool True)" 
  by (simp_all add: PACK_def)

section \<open>Loads and stores inside the mapped memory\<close>

lemma rdw_wrw: "al4 p \<Longrightarrow> al4 q \<Longrightarrow> rdw (wrw s p v) q = (if q = p then v else rdw s q)"
  by (auto simp add: rdw_def wrw_def word_at_word_upd_same al4_def
      intro: word_at_word_upd_apart apart_aligned)

lemma wrw_fields [simp]: "heap_p (wrw s p v) = heap_p s" "mem_brk (wrw s p v) = mem_brk s"
  "mem_max_addr (wrw s p v) = mem_max_addr s" "out (wrw s p v) = out s"
  "mem_start_brk (wrw s p v) = mem_start_brk s"
  by (simp_all add: wrw_def)

lemma mapped_wrw [simp]: "mapped (wrw s p v) q n = mapped s q n"
  by (simp add: mapped_def)

lemma GET_Some: "mapped s p 4 \<Longrightarrow> GET s p = Some (rdw s p)"
  by (simp add: GET_def rdw_def)

lemma PUT_Some: "mapped s p 4 \<Longrightarrow> PUT s p v = Some (wrw s p v)"
  by (simp add: PUT_def wrw_def)

lemma GET_SIZE_Some: "mapped s p 4 \<Longrightarrow> GET_SIZE s p = Some (rdw s p AND NOT 7)"
  by (simp add: GET_SIZE_def GET_Some)

lemma GET_ALLOC_Some: "mapped s p 4 \<Longrightarrow> GET_ALLOC s p = Some (rdw s p AND 1)"
  by (simp add: GET_ALLOC_def GET_Some)

lemma links_Some:
  "mapped s q 4 \<Longrightarrow> NEXT s q = Some (rdw s q)"
  "mapped s (q + 4) 4 \<Longrightarrow> PREV s q = Some (rdw s (q + 4))"
  "mapped s q 4 \<Longrightarrow> SETNEXT s q v = Some (wrw s q v)"
  "mapped s (q + 4) 4 \<Longrightarrow> SETPREV s q v = Some (wrw s (q + 4) v)"
  by (simp_all add: NEXT_def PREV_def SETNEXT_def SETPREV_def GET_Some PUT_Some)

section \<open>The words of the blocks\<close>

lemma unat_plus_nowrap: "unat (a::word32) + unat b < 4294967296 \<Longrightarrow> unat (a + b) = unat a + unat b"
  by (simp add: unat_add32)

lemma unat_minus_nowrap: "unat b \<le> unat (a::word32) \<Longrightarrow> unat (a - b) = unat a - unat b"
  by (simp add: unat_sub word_le_nat_alt)

lemma cells_bounds:
  "sizes_ok bs \<Longrightarrow> 8 \<le> unat a \<Longrightarrow> unat a + total bs < 4294967296 \<Longrightarrow> c \<in> set (cells a bs)
   \<Longrightarrow> unat a \<le> unat c + 4 \<and> unat c + 8 \<le> unat a + total bs"
proof (induction bs arbitrary: a)
  case Nil
  then show ?case by simp
next
  case (Cons b bs)
  obtain sz al where b: "b = (sz, al)" by (cases b)
  have sz: "16 \<le> unat sz" using Cons.prems(1) b by (simp add: word_le_nat_alt)
  have n: "unat (a + sz) = unat a + unat sz" using Cons.prems b by (simp add: unat_plus_nowrap)
  have n4: "unat (a + 4) = unat a + 4" using Cons.prems b sz by (simp add: unat_plus_nowrap)
  have m4: "unat (a - 4) = unat a - 4" using Cons.prems by (simp add: unat_minus_nowrap)
  have m8: "unat (a + sz - 8) = unat a + unat sz - 8"
    using n Cons.prems(2) unat_minus_nowrap[of 8 "a + sz"] by simp
  consider "c \<in> {a - 4, a, a + 4, a + sz - 8}" | "c \<in> set (cells (a + sz) bs)"
    using Cons.prems(4) b by auto
  then show ?case
  proof cases
    case 1
    then show ?thesis using n4 m4 m8 sz Cons.prems b by auto
  next
    case 2
    have "unat (a + sz) \<le> unat c + 4 \<and> unat c + 8 \<le> unat (a + sz) + total bs"
      using Cons.IH[of "a + sz"] Cons.prems b n 2 by simp
    then show ?thesis using n b by simp
  qed
qed

lemma cells_distinct:
  "sizes_ok bs \<Longrightarrow> 8 \<le> unat a \<Longrightarrow> unat a + total bs < 4294967296 \<Longrightarrow> distinct (cells a bs)"
proof (induction bs arbitrary: a)
  case Nil
  then show ?case by simp
next
  case (Cons b bs)
  obtain sz al where b: "b = (sz, al)" by (cases b)
  have sz: "16 \<le> unat sz" using Cons.prems(1) b by (simp add: word_le_nat_alt)
  have n: "unat (a + sz) = unat a + unat sz" using Cons.prems b by (simp add: unat_plus_nowrap)
  have n4: "unat (a + 4) = unat a + 4" using Cons.prems b sz by (simp add: unat_plus_nowrap)
  have m4: "unat (a - 4) = unat a - 4" using Cons.prems by (simp add: unat_minus_nowrap)
  have m8: "unat (a + sz - 8) = unat a + unat sz - 8"
    using n Cons.prems(2) unat_minus_nowrap[of 8 "a + sz"] by simp
  have r: "unat (a + sz) \<le> unat c + 4" if "c \<in> set (cells (a + sz) bs)" for c
    using cells_bounds[of bs "a + sz" c] that Cons.prems b n by simp
  have d: "distinct (cells (a + sz) bs)"
    using Cons.IH[of "a + sz"] Cons.prems b n by simp
  have f: "distinct [a - 4, a, a + 4, a + sz - 8]"
    using n4 m4 m8 sz Cons.prems(2) by (auto simp add: word_unat_eq_iff)
  have g: "c \<notin> set (cells (a + sz) bs)" if "c \<in> {a - 4, a, a + 4, a + sz - 8}" for c
  proof
    assume "c \<in> set (cells (a + sz) bs)"
    then have "unat (a + sz) \<le> unat c + 4" by (rule r)
    then show False using that n n4 m4 m8 sz Cons.prems(2) by auto
  qed
  show ?case using b d f g by auto
qed

lemma cells_aligned:
  "sizes_ok bs \<Longrightarrow> al8 a \<Longrightarrow> c \<in> set (cells a bs) \<Longrightarrow> al4 c"
proof (induction bs arbitrary: a)
  case Nil
  then show ?case by simp
next
  case (Cons b bs)
  obtain sz al where b: "b = (sz, al)" by (cases b)
  have s8: "al8 sz" using Cons.prems b by (simp add: al8_def)
  then have n: "al8 (a + sz)" using Cons.prems by (auto intro: al8_add)
  have a4: "al4 a" "al4 sz" using Cons.prems(2) s8 by (auto intro: al8_al4)
  have f: "al4 (a - 4)" "al4 (a + 4)" "al4 (a + sz - 8)"
    using a4 by (auto intro!: al4_sub al4_add al_num)
  consider "c \<in> {a - 4, a, a + 4, a + sz - 8}" | "c \<in> set (cells (a + sz) bs)"
    using Cons.prems(3) b by auto
  then show ?case
  proof cases
    case 1
    then show ?thesis using f a4 by auto
  next
    case 2
    then show ?thesis using Cons.IH[of "a + sz"] Cons.prems(1) b n by simp
  qed
qed

section \<open>List segments\<close>

lemma seg_append:
  "seg s prv p (xs @ ys) nxt = (seg s prv p xs (hdp ys nxt) \<and> seg s (lastp xs prv) (hdp ys nxt) ys nxt)"
proof (induction xs arbitrary: prv p)
  case Nil
  then show ?case by (cases ys) (auto simp add: lastp_def hdp_def)
next
  case (Cons x xs)
  then show ?case by (auto simp add: lastp_def hdp_def)
qed

lemma seg_frame:
  "seg s prv p qs nxt \<Longrightarrow> (\<forall>q \<in> set qs. rdw s' q = rdw s q \<and> rdw s' (q + 4) = rdw s (q + 4))
   \<Longrightarrow> seg s' prv p qs nxt"
  by (induction qs arbitrary: prv p) auto

lemma seg_nonzero: "seg s prv p qs nxt \<Longrightarrow> 0 \<notin> set qs"
  by (induction qs arbitrary: prv p) auto

lemma seg_hd: "seg s prv p qs nxt \<Longrightarrow> p = hdp qs nxt"
  by (cases qs) (auto simp: hdp_def)

lemma seg_last_next: "seg s prv p (qs @ [l]) nxt \<Longrightarrow> rdw s l = nxt"
  by (simp add: seg_append hdp_def)

lemma seg_snoc_upd:
  assumes "seg s prv p (qs @ [l]) nxt" "rdw s' l = nxt'" "rdw s' (l + 4) = rdw s (l + 4)"
    "\<forall>q \<in> set qs. rdw s' q = rdw s q \<and> rdw s' (q + 4) = rdw s (q + 4)"
  shows "seg s' prv p (qs @ [l]) nxt'"
  using assms seg_frame[of s prv p qs l s']
  by (auto simp add: seg_append hdp_def)

lemma seg_cons_upd:
  assumes "seg s prv p (h # qs) nxt" "rdw s' (h + 4) = prv'" "rdw s' h = rdw s h"
    "\<forall>q \<in> set qs. rdw s' q = rdw s q \<and> rdw s' (q + 4) = rdw s (q + 4)"
  shows "seg s' prv' p (h # qs) nxt"
  using assms seg_frame[of s h "rdw s h" qs nxt s']
  by auto

lemma lcells_simps [simp]: "lcells [] = []" "lcells (q # qs) = q # (q + 4) # lcells qs"
  "lcells (xs @ ys) = lcells xs @ lcells ys"
  by (simp_all add: lcells_def)

lemma lcells_mem: "q \<in> set qs \<Longrightarrow> q \<in> set (lcells qs) \<and> q + 4 \<in> set (lcells qs)"
  by (induction qs) auto

lemma seg_wrw:
  assumes "seg s prv p qs nxt" "al4 c" "c \<notin> set (lcells qs)" "\<forall>x \<in> set (lcells qs). al4 x"
  shows "seg (wrw s c v) prv p qs nxt"
proof (rule seg_frame[OF assms(1)], rule ballI)
  fix q assume "q \<in> set qs"
  then have m: "q \<in> set (lcells qs)" "q + 4 \<in> set (lcells qs)" using lcells_mem by auto
  then have "al4 q" "al4 (q + 4)" "q \<noteq> c" "q + 4 \<noteq> c" using assms by auto
  then show "rdw (wrw s c v) q = rdw s q \<and> rdw (wrw s c v) (q + 4) = rdw s (q + 4)"
    using assms(2) by (simp add: rdw_wrw)
qed

lemma seg_snoc_wrw:
  assumes "seg s prv p (qs @ [l]) nxt" "l \<notin> set (lcells qs)" "\<forall>x \<in> set (lcells (qs @ [l])). al4 x"
  shows "seg (wrw s l v) prv p (qs @ [l]) v"
proof -
  have a: "al4 l" "al4 (l + 4)" using assms(3) by auto
  have "seg s prv p qs l" "l \<noteq> 0" "rdw s (l + 4) = lastp qs prv"
    using assms(1) by (auto simp add: seg_append hdp_def)
  moreover from this have "seg (wrw s l v) prv p qs l"
    using assms a by (intro seg_wrw) auto
  ultimately show ?thesis using a by (simp add: seg_append hdp_def rdw_wrw)
qed

lemma seg_cons_wrw:
  assumes "seg s prv p (h # qs) nxt" "h + 4 \<notin> set (lcells qs)" "\<forall>x \<in> set (lcells (h # qs)). al4 x"
  shows "seg (wrw s (h + 4) v) v p (h # qs) nxt"
proof -
  have a: "al4 h" "al4 (h + 4)" using assms(3) by auto
  have "seg s h (rdw s h) qs nxt" "h \<noteq> 0" "p = h"
    using assms(1) by auto
  moreover from this have "seg (wrw s (h + 4) v) h (rdw s h) qs nxt"
    using assms a by (intro seg_wrw) auto
  ultimately show ?thesis using a by (simp add: rdw_wrw)
qed

lemma last_in_lcells: "xs \<noteq> [] \<Longrightarrow> last xs \<in> set (lcells xs)"
  by (induction xs) auto

lemma hd4_in_lcells: "ys \<noteq> [] \<Longrightarrow> hd ys + 4 \<in> set (lcells ys)"
  by (cases ys) auto

lemma hd_in_lcells: "ys \<noteq> [] \<Longrightarrow> hd ys \<in> set (lcells ys)"
  by (cases ys) auto

lemma seg_mid:
  assumes "seg s 0 p (xs @ a # ys) 0"
  shows "rdw s (a + 4) = lastp xs 0" "rdw s a = hdp ys 0" "a \<noteq> 0"
    "xs \<noteq> [] \<Longrightarrow> last xs \<noteq> 0" "ys \<noteq> [] \<Longrightarrow> hd ys \<noteq> 0"
proof -
  have nz: "0 \<notin> set (xs @ a # ys)" using assms(1) by (rule seg_nonzero)
  have s: "seg s (lastp xs 0) a (a # ys) 0" using assms(1) by (simp add: seg_append hdp_def)
  then show "rdw s (a + 4) = lastp xs 0" "rdw s a = hdp ys 0"
    using seg_hd[of s a "rdw s a" ys 0] by auto
  show "a \<noteq> 0" using nz by auto
  show "xs \<noteq> [] \<Longrightarrow> last xs \<noteq> 0" using nz by (metis Un_iff last_in_set set_append)
  show "ys \<noteq> [] \<Longrightarrow> hd ys \<noteq> 0"
    using nz by (metis Un_iff list.set_sel(1) list.set_intros(2) set_append)
qed

lemma rmv_eq:
  assumes "seg s 0 (rdw s hp) (xs @ a # ys) 0" "heap_p s = hp"
    "\<forall>c \<in> set (hp # lcells (xs @ a # ys)). mapped s c 4"
  shows "rmv_from_list s a = Some (unlink s hp xs ys)"
proof -
  note m = seg_mid[OF assms(1)]
  have ma: "mapped s a 4" "mapped s (a + 4) 4" "mapped s hp 4" using assms(3) by auto
  have mx: "xs \<noteq> [] \<Longrightarrow> mapped s (last xs) 4" using assms(3) last_in_lcells[of xs] by auto
  have my: "ys \<noteq> [] \<Longrightarrow> mapped s (hd ys + 4) 4" using assms(3) hd4_in_lcells[of ys] by auto
  show ?thesis
  proof (cases "xs = []")
    case True
    note xe = True
    show ?thesis
    proof (cases "ys = []")
      case True
      then show ?thesis using xe ma m
        by (simp add: rmv_from_list_def unlink_def links_Some PUT_Some assms(2) lastp_def hdp_def)
    next
      case False
      then show ?thesis using xe ma m my
        by (simp add: rmv_from_list_def unlink_def links_Some PUT_Some assms(2) lastp_def hdp_def)
    qed
  next
    case False
    note xe = False
    show ?thesis
    proof (cases "ys = []")
      case True
      then show ?thesis using xe ma m mx
        by (simp add: rmv_from_list_def unlink_def links_Some PUT_Some assms(2) lastp_def hdp_def)
    next
      case False
      then show ?thesis using xe ma m mx my
        by (simp add: rmv_from_list_def unlink_def links_Some PUT_Some assms(2) lastp_def hdp_def)
    qed
  qed
qed

lemma rmv_seg:
  assumes "seg s 0 (rdw s hp) (xs @ a # ys) 0" "heap_p s = hp"
    "distinct (hp # lcells (xs @ a # ys))" "\<forall>c \<in> set (hp # lcells (xs @ a # ys)). al4 c"
  shows "seg (unlink s hp xs ys) 0 (rdw (unlink s hp xs ys) hp) (xs @ ys) 0"
proof -
  have s1: "seg s 0 (rdw s hp) xs a" and s2: "seg s (lastp xs 0) a (a # ys) 0"
    using assms(1) by (simp_all add: seg_append hdp_def)
  have s3: "seg s a (rdw s a) ys 0" using s2 by simp
  have hp: "al4 hp" using assms(4) by simp
  show ?thesis
  proof (cases ys)
    case Nil
    note ysn = Nil
    show ?thesis
    proof (cases xs rule: rev_cases)
      case Nil
      then show ?thesis using ysn hp by (simp add: unlink_def lastp_def rdw_wrw)
    next
      case (snoc xs0 l)
      have "seg (wrw s l 0) 0 (rdw s hp) (xs0 @ [l]) 0"
        using s1 snoc assms(3,4) by (intro seg_snoc_wrw[of s 0 "rdw s hp" xs0 l a]) auto
      moreover have "rdw (wrw s l 0) hp = rdw s hp"
        using snoc assms(3,4) by (simp add: rdw_wrw)
      ultimately show ?thesis using ysn snoc by (simp add: unlink_def lastp_def)
    qed
  next
    case (Cons h ys0)
    note ysc = Cons
    have h: "rdw s a = h" using seg_hd[OF s3] ysc by (simp add: hdp_def)
    show ?thesis
    proof (cases xs rule: rev_cases)
      case Nil
      let ?s' = "wrw (wrw s hp h) (h + 4) 0"
      have t: "seg (wrw s hp h) a h (h # ys0) 0"
        using s3 h ysc Nil assms(3,4) by (intro seg_wrw) auto
      have "seg ?s' 0 h (h # ys0) 0"
        using ysc Nil assms(3,4) by (intro seg_cons_wrw[OF t]) auto
      moreover have "rdw ?s' hp = h"
        using ysc Nil assms(3,4) by (simp add: rdw_wrw)
      ultimately show ?thesis using ysc Nil by (simp add: unlink_def lastp_def)
    next
      case (snoc xs0 l)
      let ?s' = "wrw (wrw s l h) (h + 4) l"
      have t: "seg (wrw s l h) 0 (rdw s hp) (xs0 @ [l]) h"
        using s1 snoc assms(3,4) by (intro seg_snoc_wrw[of s 0 "rdw s hp" xs0 l a]) auto
      have a: "seg ?s' 0 (rdw s hp) (xs0 @ [l]) h"
        using ysc snoc assms(3,4) by (intro seg_wrw[OF t]) auto
      have u: "seg (wrw s l h) a h (h # ys0) 0"
        using s3 h ysc snoc assms(3,4) by (intro seg_wrw) auto
      have b: "seg ?s' l h (h # ys0) 0"
        using ysc snoc assms(3,4) by (intro seg_cons_wrw[OF u]) auto
      have "seg ?s' 0 (rdw s hp) ((xs0 @ [l]) @ h # ys0) 0"
        using a b by (simp only: seg_append[of ?s' 0 "rdw s hp" "xs0 @ [l]"]) (simp add: hdp_def lastp_def)
      moreover have "rdw ?s' hp = rdw s hp"
        using ysc snoc assms(3,4) by (simp add: rdw_wrw)
      ultimately show ?thesis using ysc snoc by (simp add: unlink_def lastp_def)
    qed
  qed
qed

lemma insert_eq:
  assumes "seg s 0 (rdw s hp) fl 0" "heap_p s = hp"
    "\<forall>c \<in> set (hp # lcells (a # fl)). mapped s c 4"
  shows "insert_front_list s a = Some (push s hp a fl)"
proof -
  have "0 \<notin> set fl" using assms(1) by (rule seg_nonzero)
  then have y: "fl \<noteq> [] \<Longrightarrow> hd fl \<noteq> 0" by (metis list.set_sel(1))
  have h: "rdw s hp = hdp fl 0" using assms(1) by (rule seg_hd)
  have ma: "mapped s a 4" "mapped s (a + 4) 4" "mapped s hp 4" using assms(3) by auto
  have my: "fl \<noteq> [] \<Longrightarrow> mapped s (hd fl + 4) 4" using assms(3) hd4_in_lcells[of fl] by auto
  show ?thesis
  proof (cases "fl = []")
    case True
    then show ?thesis using ma h
      by (simp add: insert_front_list_def push_def links_Some assms(2) hdp_def)
  next
    case False
    then show ?thesis using ma h y my
      by (simp add: insert_front_list_def push_def links_Some assms(2) hdp_def)
  qed
qed

lemma insert_seg:
  assumes "seg s 0 (rdw s hp) fl 0" "heap_p s = hp" "a \<noteq> 0"
    "distinct (hp # lcells (a # fl))" "\<forall>c \<in> set (hp # lcells (a # fl)). al4 c"
  shows "seg (push s hp a fl) 0 (rdw (push s hp a fl) hp) (a # fl) 0"
proof (cases fl)
  case Nil
  let ?s' = "wrw (wrw (wrw s a 0) hp a) (a + 4) 0"
  have "rdw ?s' hp = a" "rdw ?s' a = 0" "rdw ?s' (a + 4) = 0"
    using assms(4,5) by (auto simp add: rdw_wrw)
  then show ?thesis using Nil assms(3) by (simp add: push_def)
next
  case (Cons h fl0)
  let ?s' = "wrw (wrw (wrw (wrw s a h) (h + 4) a) hp a) (a + 4) 0"
  have h: "rdw s hp = h" using seg_hd[OF assms(1)] Cons by (simp add: hdp_def)
  have t: "seg (wrw s a h) 0 h (h # fl0) 0"
    using assms h Cons by (intro seg_wrw) auto
  have u: "seg (wrw (wrw s a h) (h + 4) a) a h (h # fl0) 0"
    using assms Cons by (intro seg_cons_wrw[OF t]) auto
  have v: "seg (wrw (wrw (wrw s a h) (h + 4) a) hp a) a h (h # fl0) 0"
    using assms Cons by (intro seg_wrw[OF u]) auto
  have w: "seg ?s' a h (h # fl0) 0"
    using assms Cons by (intro seg_wrw[OF v]) auto
  have "rdw ?s' hp = a" "rdw ?s' a = h" "rdw ?s' (a + 4) = 0"
    using assms(4,5) Cons by (auto simp add: rdw_wrw)
  then show ?thesis using Cons assms(3) w by (simp add: push_def)
qed

lemma relink_eq:
  assumes "heap_p s = hp" "xs \<noteq> [] \<Longrightarrow> last xs \<noteq> 0" "ys \<noteq> [] \<Longrightarrow> hd ys \<noteq> 0"
    "\<forall>c \<in> set (hp # n # (n + 4) # lcells (xs @ ys)). mapped s c 4"
  shows "(if lastp xs 0 \<noteq> 0 \<and> hdp ys 0 \<noteq> 0 then do {
            t1 \<leftarrow> SETNEXT s n (hdp ys 0);
            t2 \<leftarrow> SETPREV t1 n (lastp xs 0);
            t3 \<leftarrow> SETNEXT t2 (lastp xs 0) n;
            SETPREV t3 (hdp ys 0) n
          } else if \<not> lastp xs 0 \<noteq> 0 \<and> hdp ys 0 \<noteq> 0 then do {
            t1 \<leftarrow> SETNEXT s (heap_p s) n;
            t2 \<leftarrow> SETPREV t1 n 0;
            t3 \<leftarrow> SETNEXT t2 n (hdp ys 0);
            SETPREV t3 (hdp ys 0) n
          } else if lastp xs 0 \<noteq> 0 \<and> \<not> hdp ys 0 \<noteq> 0 then do {
            t1 \<leftarrow> SETNEXT s (lastp xs 0) n;
            t2 \<leftarrow> SETNEXT t1 n 0;
            SETPREV t2 n (lastp xs 0)
          } else do {
            t1 \<leftarrow> SETNEXT s (heap_p s) n;
            t2 \<leftarrow> SETNEXT t1 n 0;
            SETPREV t2 n 0
          }) = Some (relink s hp xs n ys)"
proof -
  have ma: "mapped s n 4" "mapped s (n + 4) 4" "mapped s hp 4" using assms(4) by auto
  have mx: "xs \<noteq> [] \<Longrightarrow> mapped s (last xs) 4" using assms(4) last_in_lcells[of xs] by auto
  have my: "ys \<noteq> [] \<Longrightarrow> mapped s (hd ys + 4) 4" using assms(4) hd4_in_lcells[of ys] by auto
  show ?thesis
  proof (cases "xs = []")
    case True
    note xe = True
    show ?thesis
    proof (cases "ys = []")
      case True
      then show ?thesis using xe ma
        by (simp add: relink_def links_Some assms(1) lastp_def hdp_def)
    next
      case False
      then show ?thesis using xe ma my assms(3)
        by (simp add: relink_def links_Some assms(1) lastp_def hdp_def)
    qed
  next
    case False
    note xe = False
    show ?thesis
    proof (cases "ys = []")
      case True
      then show ?thesis using xe ma mx assms(2)
        by (simp add: relink_def links_Some assms(1) lastp_def hdp_def)
    next
      case False
      then show ?thesis using xe ma mx my assms(2,3)
        by (simp add: relink_def links_Some assms(1) lastp_def hdp_def)
    qed
  qed
qed

lemma relink_seg:
  assumes "seg s 0 (rdw s hp) (xs @ a # ys) 0" "heap_p s = hp" "n \<noteq> 0"
    "distinct (hp # n # (n + 4) # lcells (xs @ a # ys))"
    "\<forall>c \<in> set (hp # n # (n + 4) # lcells (xs @ a # ys)). al4 c"
  shows "seg (relink s hp xs n ys) 0 (rdw (relink s hp xs n ys) hp) (xs @ n # ys) 0"
proof -
  have s1: "seg s 0 (rdw s hp) xs a" and s2: "seg s (lastp xs 0) a (a # ys) 0"
    using assms(1) by (simp_all add: seg_append hdp_def)
  have s3: "seg s a (rdw s a) ys 0" using s2 by simp
  show ?thesis
  proof (cases ys)
    case Nil
    note ysn = Nil
    show ?thesis
    proof (cases xs rule: rev_cases)
      case Nil
      let ?s' = "wrw (wrw (wrw s hp n) n 0) (n + 4) 0"
      have "rdw ?s' hp = n" "rdw ?s' n = 0" "rdw ?s' (n + 4) = 0"
        using assms(4,5) by (auto simp add: rdw_wrw)
      then show ?thesis using ysn Nil assms(3) by (simp add: relink_def)
    next
      case (snoc xs0 l)
      let ?s' = "wrw (wrw (wrw s l n) n 0) (n + 4) l"
      have t: "seg (wrw s l n) 0 (rdw s hp) (xs0 @ [l]) n"
        using s1 snoc assms(4,5) by (intro seg_snoc_wrw[of s 0 "rdw s hp" xs0 l a]) auto
      have u: "seg (wrw (wrw s l n) n 0) 0 (rdw s hp) (xs0 @ [l]) n"
        using snoc assms(4,5) by (intro seg_wrw[OF t]) auto
      have v: "seg ?s' 0 (rdw s hp) (xs0 @ [l]) n"
        using snoc assms(4,5) by (intro seg_wrw[OF u]) auto
      have g: "rdw ?s' hp = rdw s hp" "rdw ?s' n = 0" "rdw ?s' (n + 4) = l"
        using snoc assms(4,5) by (auto simp add: rdw_wrw)
      have "seg ?s' 0 (rdw s hp) ((xs0 @ [l]) @ [n]) 0"
        using v g assms(3) by (simp only: seg_append[of ?s' 0 "rdw s hp" "xs0 @ [l]"]) (simp add: hdp_def lastp_def)
      then show ?thesis using ysn snoc g by (simp add: relink_def)
    qed
  next
    case (Cons h ys0)
    note ysc = Cons
    have h: "rdw s a = h" using seg_hd[OF s3] ysc by (simp add: hdp_def)
    show ?thesis
    proof (cases xs rule: rev_cases)
      case Nil
      let ?s' = "wrw (wrw (wrw (wrw s hp n) (n + 4) 0) n h) (h + 4) n"
      have t: "seg (wrw s hp n) a h (h # ys0) 0"
        using s3 h ysc Nil assms(4,5) by (intro seg_wrw) auto
      have u: "seg (wrw (wrw s hp n) (n + 4) 0) a h (h # ys0) 0"
        using ysc Nil assms(4,5) by (intro seg_wrw[OF t]) auto
      have v: "seg (wrw (wrw (wrw s hp n) (n + 4) 0) n h) a h (h # ys0) 0"
        using ysc Nil assms(4,5) by (intro seg_wrw[OF u]) auto
      have w: "seg ?s' n h (h # ys0) 0"
        using ysc Nil assms(4,5) by (intro seg_cons_wrw[OF v]) auto
      have g: "rdw ?s' hp = n" "rdw ?s' n = h" "rdw ?s' (n + 4) = 0"
        using ysc Nil assms(4,5) by (auto simp add: rdw_wrw)
      show ?thesis using ysc Nil g w assms(3) by (simp add: relink_def)
    next
      case (snoc xs0 l)
      let ?s' = "wrw (wrw (wrw (wrw s n h) (n + 4) l) l n) (h + 4) n"
      have t1: "seg (wrw s n h) 0 (rdw s hp) (xs0 @ [l]) a"
        using s1 snoc assms(4,5) by (intro seg_wrw) auto
      have t2: "seg (wrw (wrw s n h) (n + 4) l) 0 (rdw s hp) (xs0 @ [l]) a"
        using snoc assms(4,5) by (intro seg_wrw[OF t1]) auto
      have t3: "seg (wrw (wrw (wrw s n h) (n + 4) l) l n) 0 (rdw s hp) (xs0 @ [l]) n"
        using snoc assms(4,5) by (intro seg_snoc_wrw[OF t2]) auto
      have t4: "seg ?s' 0 (rdw s hp) (xs0 @ [l]) n"
        using ysc snoc assms(4,5) by (intro seg_wrw[OF t3]) auto
      have u1: "seg (wrw s n h) a h (h # ys0) 0"
        using s3 h ysc snoc assms(4,5) by (intro seg_wrw) auto
      have u2: "seg (wrw (wrw s n h) (n + 4) l) a h (h # ys0) 0"
        using ysc snoc assms(4,5) by (intro seg_wrw[OF u1]) auto
      have u3: "seg (wrw (wrw (wrw s n h) (n + 4) l) l n) a h (h # ys0) 0"
        using ysc snoc assms(4,5) by (intro seg_wrw[OF u2]) auto
      have u4: "seg ?s' n h (h # ys0) 0"
        using ysc snoc assms(4,5) by (intro seg_cons_wrw[OF u3]) auto
      have g: "rdw ?s' hp = rdw s hp" "rdw ?s' n = h" "rdw ?s' (n + 4) = l"
        using ysc snoc assms(4,5) by (auto simp add: rdw_wrw)
      have "seg ?s' 0 (rdw s hp) ((xs0 @ [l]) @ n # h # ys0) 0"
        using t4 u4 g assms(3)
        by (simp only: seg_append[of ?s' 0 "rdw s hp" "xs0 @ [l]"]) (simp add: hdp_def lastp_def)
      then show ?thesis using ysc snoc g by (simp add: relink_def)
    qed
  qed
qed

section \<open>Block lists\<close>

lemma wend_append [simp]: "wend a (xs @ ys) = wend (wend a xs) ys"
  by (induction xs arbitrary: a) auto

lemma tags_append [simp]: "tags a (xs @ ys) = tags a xs @ tags (wend a xs) ys"
  by (induction xs arbitrary: a) auto

lemma starts_append [simp]: "starts a (xs @ ys) = starts a xs @ starts (wend a xs) ys"
  by (induction xs arbitrary: a) auto

lemma frees_append [simp]: "frees a (xs @ ys) = frees a xs @ frees (wend a xs) ys"
  by (induction xs arbitrary: a) auto

lemma chain_append [simp]: "chain s a (xs @ ys) = (chain s a xs \<and> chain s (wend a xs) ys)"
  by (induction xs arbitrary: a) auto

lemma total_append [simp]: "total (xs @ ys) = total xs + total ys"
  by (induction xs) auto

lemma sizes_ok_append [simp]: "sizes_ok (xs @ ys) = (sizes_ok xs \<and> sizes_ok ys)"
  by (induction xs) auto

lemma unat_wend: "unat a + total bs < 4294967296 \<Longrightarrow> unat (wend a bs) = unat a + total bs"
proof (induction bs arbitrary: a)
  case Nil
  then show ?case by simp
next
  case (Cons b bs)
  obtain sz al where b: "b = (sz, al)" by (cases b)
  have n: "unat (a + sz) = unat a + unat sz" using Cons.prems b by (simp add: unat_plus_nowrap)
  show ?case using Cons.IH[of "a + sz"] Cons.prems b n by simp
qed

lemma al8_wend: "sizes_ok bs \<Longrightarrow> al8 a \<Longrightarrow> al8 (wend a bs)"
proof (induction bs arbitrary: a)
  case Nil
  then show ?case by simp
next
  case (Cons b bs)
  obtain sz al where b: "b = (sz, al)" by (cases b)
  have "al8 sz" using Cons.prems b by (simp add: al8_def)
  then have "al8 (a + sz)" using Cons.prems by (auto intro: al8_add)
  then show ?case using Cons b by simp
qed

lemma frees_starts: "x \<in> set (frees a bs) \<Longrightarrow> x \<in> set (starts a bs)"
  by (induction bs arbitrary: a) (auto split: if_splits)

lemma cells_split: "set (cells a bs) = set (tags a bs) \<union> set (lcells (starts a bs))"
  by (induction bs arbitrary: a) auto

lemma cells_split_distinct:
  "distinct (cells a bs) \<Longrightarrow>
     distinct (tags a bs) \<and> distinct (lcells (starts a bs))
     \<and> set (tags a bs) \<inter> set (lcells (starts a bs)) = {}"
proof (induction bs arbitrary: a)
  case Nil
  then show ?case by simp
next
  case (Cons b bs)
  obtain sz al where b: "b = (sz, al)" by (cases b)
  show ?case using Cons.IH[of "a + sz"] Cons.prems b cells_split[of "a + sz" bs]
    by auto
qed

lemma chain_frame:
  "chain s a bs \<Longrightarrow> (\<forall>c \<in> set (tags a bs). rdw s' c = rdw s c) \<Longrightarrow> chain s' a bs"
  by (induction bs arbitrary: a) auto

lemma chain_wrw:
  assumes "chain s a bs" "al4 c" "c \<notin> set (tags a bs)" "\<forall>x \<in> set (tags a bs). al4 x"
  shows "chain (wrw s c v) a bs"
  using assms by (intro chain_frame[OF assms(1)]) (auto simp add: rdw_wrw)

lemma lcells_pair:
  "distinct (lcells S) \<Longrightarrow> q \<in> set S \<Longrightarrow> q' \<in> set S \<Longrightarrow> q \<noteq> q' \<Longrightarrow> q \<noteq> q' + 4"
  by (induction S) (auto dest: lcells_mem)

lemma lcells_sub_distinct:
  "distinct (lcells S) \<Longrightarrow> distinct fl \<Longrightarrow> set fl \<subseteq> set S \<Longrightarrow> distinct (lcells fl)"
proof (induction fl)
  case Nil
  then show ?case by simp
next
  case (Cons q fl)
  have "x \<noteq> q \<and> x \<noteq> q + 4" if "x \<in> set (lcells fl)" for x
  proof -
    from that obtain q' where q': "q' \<in> set fl" "x = q' \<or> x = q' + 4"
      by (auto simp add: lcells_def)
    then have "q' \<noteq> q" "q' \<in> set S" "q \<in> set S" using Cons.prems by auto
    then show ?thesis using q' lcells_pair[OF Cons.prems(1), of q q'] lcells_pair[OF Cons.prems(1), of q' q]
      by auto
  qed
  then show ?case using Cons by auto
qed

lemma lcells_sub_set: "set fl \<subseteq> set S \<Longrightarrow> set (lcells fl) \<subseteq> set (lcells S)"
  by (auto simp add: lcells_def)

section \<open>What the splices leave unchanged\<close>

lemma unlink_fields [simp]:
  "heap_p (unlink s hp xs ys) = heap_p s" "mem_brk (unlink s hp xs ys) = mem_brk s"
  "mem_max_addr (unlink s hp xs ys) = mem_max_addr s" "out (unlink s hp xs ys) = out s"
  "mem_start_brk (unlink s hp xs ys) = mem_start_brk s"
  "mapped (unlink s hp xs ys) q k = mapped s q k"
  by (simp_all add: unlink_def)

lemma push_fields [simp]:
  "heap_p (push s hp a fl) = heap_p s" "mem_brk (push s hp a fl) = mem_brk s"
  "mem_max_addr (push s hp a fl) = mem_max_addr s" "out (push s hp a fl) = out s"
  "mem_start_brk (push s hp a fl) = mem_start_brk s"
  "mapped (push s hp a fl) q k = mapped s q k"
  by (simp_all add: push_def)

lemma relink_fields [simp]:
  "heap_p (relink s hp xs n ys) = heap_p s" "mem_brk (relink s hp xs n ys) = mem_brk s"
  "mem_max_addr (relink s hp xs n ys) = mem_max_addr s" "out (relink s hp xs n ys) = out s"
  "mem_start_brk (relink s hp xs n ys) = mem_start_brk s"
  "mapped (relink s hp xs n ys) q k = mapped s q k"
  by (simp_all add: relink_def)

lemma unlink_frame:
  assumes "\<forall>x \<in> set (hp # lcells (xs @ ys)). al4 x" "al4 c" "c \<notin> set (hp # lcells (xs @ ys))"
  shows "rdw (unlink s hp xs ys) c = rdw s c"
proof -
  have "xs \<noteq> [] \<Longrightarrow> al4 (last xs) \<and> c \<noteq> last xs"
    using assms(1,3) last_in_lcells[of xs] by auto
  moreover have "ys \<noteq> [] \<Longrightarrow> al4 (hd ys + 4) \<and> c \<noteq> hd ys + 4"
    using assms(1,3) hd4_in_lcells[of ys] by auto
  moreover have "al4 hp" "c \<noteq> hp" using assms(1,3) by auto
  ultimately show ?thesis
    using assms(2) by (cases "xs = []"; cases "ys = []") (simp_all add: unlink_def lastp_def rdw_wrw)
qed

lemma push_frame:
  assumes "\<forall>x \<in> set (hp # lcells (a # fl)). al4 x" "al4 c" "c \<notin> set (hp # lcells (a # fl))"
  shows "rdw (push s hp a fl) c = rdw s c"
proof -
  have "fl \<noteq> [] \<Longrightarrow> al4 (hd fl + 4) \<and> c \<noteq> hd fl + 4"
    using assms(1,3) hd4_in_lcells[of fl] by auto
  moreover have "al4 hp" "al4 a" "al4 (a + 4)" "c \<noteq> hp" "c \<noteq> a" "c \<noteq> a + 4"
    using assms(1,3) by auto
  ultimately show ?thesis
    using assms(2) by (cases "fl = []") (simp_all add: push_def rdw_wrw)
qed

lemma relink_frame:
  assumes "\<forall>x \<in> set (hp # n # (n + 4) # lcells (xs @ ys)). al4 x" "al4 c"
    "c \<notin> set (hp # n # (n + 4) # lcells (xs @ ys))"
  shows "rdw (relink s hp xs n ys) c = rdw s c"
proof -
  have x: "xs \<noteq> [] \<Longrightarrow> al4 (last xs) \<and> c \<noteq> last xs"
    using assms(1,3) last_in_lcells[of xs] by auto
  have y: "ys \<noteq> [] \<Longrightarrow> al4 (hd ys + 4) \<and> c \<noteq> hd ys + 4"
    using assms(1,3) hd4_in_lcells[of ys] by auto
  have z: "al4 hp" "al4 n" "al4 (n + 4)" "c \<noteq> hp" "c \<noteq> n" "c \<noteq> n + 4"
    using assms(1,3) by auto
  show ?thesis
  proof (cases "xs = []")
    case True
    note xe = True
    show ?thesis
    proof (cases "ys = []")
      case True
      then show ?thesis using xe z assms(2) by (simp add: relink_def rdw_wrw)
    next
      case False
      then show ?thesis using xe z y assms(2) by (simp add: relink_def rdw_wrw)
    qed
  next
    case False
    note xe = False
    show ?thesis
    proof (cases "ys = []")
      case True
      then show ?thesis using xe z x assms(2) by (simp add: relink_def rdw_wrw)
    next
      case False
      then show ?thesis using xe z x y assms(2) by (simp add: relink_def rdw_wrw)
    qed
  qed
qed

lemma distinct_lcells_imp: "distinct (lcells S) \<Longrightarrow> distinct S"
  by (induction S) (auto dest: lcells_mem)

lemma starts_Cons: "starts a (b # bs) = a # starts (a + fst b) bs"
  by (cases b) simp

lemma starts_map_fst: "map fst ls = map fst bs \<Longrightarrow> starts a ls = starts a bs"
proof (induction bs arbitrary: a ls)
  case Nil
  then show ?case by simp
next
  case (Cons b bs)
  then obtain l ls' where l: "ls = l # ls'" by (cases ls) auto
  have f: "fst l = fst b" and m: "map fst ls' = map fst bs" using Cons.prems l by simp_all
  have "starts (a + fst b) ls' = starts (a + fst b) bs" using m by (rule Cons.IH)
  then show ?case unfolding l starts_Cons f by simp
qed

lemma no_adj_alloc: "no_adj (pre @ (c, False) # post) \<Longrightarrow> no_adj (pre @ (c, True) # post)"
  apply (induction pre rule: no_adj.induct)
    apply simp
   apply (cases post; auto)
  apply (cases post; auto)
  done

lemma no_adj_split:
  "no_adj (pre @ (c, False) # post) \<Longrightarrow> no_adj (pre @ (c1, True) # (c2, False) # post)"
  apply (induction pre rule: no_adj.induct)
    apply simp
   apply (cases post; auto)
  apply (cases post; auto)
  done

section \<open>The geometry of a heap\<close>

lemma cells_append [simp]: "cells a (xs @ ys) = cells a xs @ cells (wend a xs) ys"
  by (induction xs arbitrary: a) auto

lemma geometry:
  assumes "sizes_ok bs" "hp AND 7 = 0" "8 \<le> unat hp" "unat hp + total bs = unat (brk :: word32)"
  shows "distinct (cells hp bs)" and "\<forall>c\<in>set (cells hp bs). al4 c"
    and "wend hp bs = brk" and "brk - 4 \<notin> set (cells hp bs)" and "al4 (brk - 4)"
proof -
  have lt: "unat hp + total bs < 4294967296"
    using assms(4) unsigned_less[of brk] by simp
  have a8: "al8 hp" using assms(2) by (simp add: al8_def)
  show "distinct (cells hp bs)" using assms lt by (intro cells_distinct) auto
  show "\<forall>c\<in>set (cells hp bs). al4 c" using assms(1) a8 cells_aligned by blast
  show w: "wend hp bs = brk" using unat_wend[OF lt] assms(4) by (simp add: word_unat_eq_iff)
  have b4: "unat (brk - 4) = unat brk - 4" using assms(3,4) by (simp add: unat_minus_nowrap)
  show "brk - 4 \<notin> set (cells hp bs)"
  proof
    assume "brk - 4 \<in> set (cells hp bs)"
    then have "unat (brk - 4) + 8 \<le> unat hp + total bs"
      using cells_bounds[OF assms(1,3) lt] by blast
    then show False using b4 assms(3,4) by simp
  qed
  have "al8 brk" using al8_wend[OF assms(1) a8] w by simp
  then have "al4 brk" by (rule al8_al4)
  then show "al4 (brk - 4)" by (intro al4_sub al_num)
qed

lemma nodes_ok:
  assumes "distinct (cells hp bs)" "\<forall>c\<in>set (cells hp bs). al4 c" "distinct fl"
    "set fl \<subseteq> set (starts hp bs)" "hp \<in> set (starts hp bs)" "hp \<notin> set fl"
  shows "distinct (hp # lcells fl)" and "\<forall>c\<in>set (hp # lcells fl). al4 c"
    and "set (hp # lcells fl) \<inter> set (tags hp bs) = {}"
proof -
  note sp = cells_split_distinct[OF assms(1)]
  have d: "distinct (lcells fl)" using sp assms(3,4) lcells_sub_distinct by blast
  have s: "set (lcells fl) \<subseteq> set (lcells (starts hp bs))" using assms(4) by (rule lcells_sub_set)
  have h: "hp \<in> set (lcells (starts hp bs))" using assms(5) lcells_mem by blast
  have "hp \<noteq> x" if "x \<in> set (lcells fl)" for x
  proof -
    from that obtain q where q: "q \<in> set fl" "x = q \<or> x = q + 4"
      by (auto simp add: lcells_def)
    then have "q \<noteq> hp" "q \<in> set (starts hp bs)" using assms(4,6) by auto
    then show ?thesis using q lcells_pair[of "starts hp bs" hp q] sp assms(5) by auto
  qed
  then show "distinct (hp # lcells fl)" using d by auto
  show "\<forall>c\<in>set (hp # lcells fl). al4 c"
    using s h assms(2) cells_split[of hp bs] by auto
  show "set (hp # lcells fl) \<inter> set (tags hp bs) = {}"
    using s h sp by auto
qed

lemma prologue_first:
  "take 1 (pre @ (c, False) # post) = [(16, True)] \<Longrightarrow> pre \<noteq> [] \<and> take 1 pre = [(16, True)]"
  by (cases pre) auto

lemma starts_hd: "take 1 bs = [(16, True)] \<Longrightarrow> hp \<in> set (starts hp bs)"
  by (cases bs) auto

lemma frees_prologue: "take 1 bs = [(16, True)] \<Longrightarrow> distinct (starts hp bs) \<Longrightarrow> hp \<notin> set (frees hp bs)"
  by (cases bs) (auto dest: frees_starts)

section \<open>Placement\<close>

lemma GET_SIZE_tag:
  assumes "mapped s p 4" "rdw s p = PACK sz (of_bool al)" "sz AND 7 = 0"
  shows "GET_SIZE s p = Some sz"
proof -
  have "al8 sz" using assms(3) by (simp add: al8_def)
  from PACK_size[OF this, of al] show ?thesis
    using assms(1,2) by (simp add: GET_SIZE_Some)
qed

lemma GET_ALLOC_tag:
  assumes "mapped s p 4" "rdw s p = PACK sz (of_bool al)" "sz AND 7 = 0"
  shows "GET_ALLOC s p = Some (of_bool al)"
proof -
  have "al8 sz" using assms(3) by (simp add: al8_def)
  from PACK_alloc[OF this, of al] show ?thesis
    using assms(1,2) by (simp add: GET_ALLOC_Some)
qed

lemma GET_SIZE_01:
  "mapped s p 4 \<Longrightarrow> rdw s p = PACK sz 0 \<Longrightarrow> sz AND 7 = 0 \<Longrightarrow> GET_SIZE s p = Some sz"
  "mapped s p 4 \<Longrightarrow> rdw s p = PACK sz 1 \<Longrightarrow> sz AND 7 = 0 \<Longrightarrow> GET_SIZE s p = Some sz"
  using GET_SIZE_tag[of s p sz False] GET_SIZE_tag[of s p sz True] by simp_all

lemma GET_ALLOC_01:
  "mapped s p 4 \<Longrightarrow> rdw s p = PACK sz 0 \<Longrightarrow> sz AND 7 = 0 \<Longrightarrow> GET_ALLOC s p = Some 0"
  "mapped s p 4 \<Longrightarrow> rdw s p = PACK sz 1 \<Longrightarrow> sz AND 7 = 0 \<Longrightarrow> GET_ALLOC s p = Some 1"
  using GET_ALLOC_tag[of s p sz False] GET_ALLOC_tag[of s p sz True] by simp_all

lemma cells_mapped:
  assumes "sizes_ok bs" "unat (mem_start_brk s) + 8 \<le> unat hp"
    "unat hp + total bs = unat (brk :: word32)" "unat brk \<le> unat (mem_max_addr s)"
  shows "\<forall>c\<in>set (cells hp bs). mapped s c 4" and "mapped s (brk - 4) 4"
proof -
  have lt: "unat hp + total bs < 4294967296"
    using assms(3) unsigned_less[of brk] by simp
  have h8: "8 \<le> unat hp" using assms(2) by simp
  show "\<forall>c\<in>set (cells hp bs). mapped s c 4"
  proof
    fix c assume "c \<in> set (cells hp bs)"
    then have "unat hp \<le> unat c + 4 \<and> unat c + 8 \<le> unat hp + total bs"
      using cells_bounds[OF assms(1) h8 lt] by blast
    then show "mapped s c 4" using assms(2,3,4) by (simp add: mapped_def)
  qed
  have "unat (brk - 4) = unat brk - 4" using assms(2,3) by (simp add: unat_minus_nowrap)
  then show "mapped s (brk - 4) 4" using assms(2,3,4) by (simp add: mapped_def)
qed

lemma heap_okD:
  assumes "heap_rel s bs ls fl"
  shows "take 1 bs = [(16, True)]" "heap_p s AND 7 = 0" "8 \<le> unat (heap_p s)" "sizes_ok bs"
    "unat (heap_p s) + total bs = unat (mem_brk s)" "chain s (heap_p s) bs"
    "rdw s (mem_brk s - 4) = PACK 0 1"
    "seg s 0 (rdw s (heap_p s)) fl 0" "distinct fl" "set fl = set (frees (heap_p s) ls)"
    "no_adj ls" "unat (mem_start_brk s) + 8 \<le> unat (heap_p s)"
    "unat (mem_brk s) \<le> unat (mem_max_addr s)" "take 1 ls = [(16, True)]"
    "map fst ls = map fst bs"
  using assms by (simp_all add: heap_rel_def)

lemma place_whole:
  assumes H: "heap_ok s (pre @ (csz, False) # post) fl" and a: "a = wend (heap_p s) pre"
    and c: "\<not> 16 \<le> csz - asz"
  shows "\<exists>s'. place s a asz = Some s' \<and> heap_ok s' (pre @ (csz, True) # post) (remove1 a fl)"
proof -
  define hp where "hp = heap_p s"
  define bs where "bs = pre @ (csz, False) # post"
  define e where "e = a + csz"
  have H0: "heap_rel s bs bs fl" using H by (simp add: heap_ok_def bs_def)
  note H' = heap_okD[OF H0, folded hp_def]
  note G = geometry[OF H'(4,2,3,5)]
  note M = cells_mapped[OF H'(4,12,5,13)]
  have pre: "pre \<noteq> []" "take 1 pre = [(16, True)]"
    using H'(1) prologue_first unfolding bs_def by blast+
  have w: "wend hp pre = a" using a hp_def by simp
  have sz: "csz AND 7 = 0" using H'(4) by (simp add: bs_def)
  have ch: "chain s hp pre" "rdw s (a - 4) = PACK csz 0"
    "rdw s (e - 8) = PACK csz 0" "chain s e post"
    using H'(6) by (simp_all add: bs_def w e_def)
  have st: "starts hp bs = starts hp pre @ a # starts e post"
    by (simp add: bs_def w e_def)
  have fr: "frees hp bs = frees hp pre @ a # frees e post"
    by (simp add: bs_def w e_def)
  have tg: "tags hp bs = tags hp pre @ (a - 4) # (e - 8) # tags e post"
    by (simp add: bs_def w e_def)
  note sp = cells_split_distinct[OF G(1)]
  have ds: "distinct (starts hp bs)" using sp distinct_lcells_imp by blast
  have hps: "hp \<in> set (starts hp bs)" using H'(1) by (rule starts_hd)
  have hpf: "hp \<notin> set fl" using H'(1,10) ds frees_prologue by blast
  have sub: "set fl \<subseteq> set (starts hp bs)" using H'(10) frees_starts by blast
  note N = nodes_ok[OF G(1,2) H'(9) sub hps hpf]
  have "a \<in> set fl" using H'(10) fr by simp
  then obtain xs ys where fl: "fl = xs @ a # ys" by (meson split_list)
  have rm: "remove1 a fl = xs @ ys" using H'(9) fl by (simp add: remove1_append)
  have LS: "set (hp # lcells fl) \<subseteq> set (cells hp bs)"
  proof -
    have "set (lcells fl) \<subseteq> set (lcells (starts hp bs))" using sub by (rule lcells_sub_set)
    moreover have "hp \<in> set (lcells (starts hp bs))" using lcells_mem[OF hps] by simp
    ultimately show ?thesis unfolding cells_split[of hp bs] by auto
  qed
  have TS: "set (tags hp bs) \<subseteq> set (cells hp bs)" unfolding cells_split[of hp bs] by blast
  have mn: "\<forall>c\<in>set (hp # lcells (xs @ a # ys)). mapped s c 4" using LS M(1) fl by blast
  have mt: "mapped s (a - 4) 4" "mapped s (e - 8) 4" using TS M(1) tg by auto
  have al: "\<forall>c\<in>set (tags hp bs). al4 c" using G(2) TS by blast
  have ta: "al4 (a - 4)" "al4 (e - 8)" using al tg by auto
  have tn: "a - 4 \<notin> set (hp # lcells (xs @ ys))" "e - 8 \<notin> set (hp # lcells (xs @ ys))"
    "a - 4 \<noteq> e - 8" "a - 4 \<notin> set (tags hp pre)" "e - 8 \<notin> set (tags hp pre)"
    "a - 4 \<notin> set (tags e post)" "e - 8 \<notin> set (tags e post)"
    using N(3) sp tg fl by auto
  have N': "distinct (hp # lcells (xs @ ys))" "\<forall>c\<in>set (hp # lcells (xs @ ys)). al4 c"
    "set (hp # lcells (xs @ ys)) \<inter> set (tags hp bs) = {}"
    using N fl by auto
  have LS': "set (hp # lcells (xs @ ys)) \<subseteq> set (cells hp bs)" using LS fl by auto
  have bk: "al4 (mem_brk s - 4)" "mem_brk s - 4 \<notin> set (hp # lcells (xs @ ys))"
    "mem_brk s - 4 \<noteq> a - 4" "mem_brk s - 4 \<noteq> e - 8"
    using G(4,5) LS' TS tg by auto
  define s1 where "s1 = unlink s hp xs ys"
  have sg: "seg s 0 (rdw s hp) (xs @ a # ys) 0" using H'(8) fl by simp
  have r1: "rmv_from_list s a = Some s1"
    unfolding s1_def using sg hp_def[symmetric] mn by (rule rmv_eq)
  have f1: "rdw s1 x = rdw s x" if "al4 x" "x \<notin> set (hp # lcells (xs @ ys))" for x
    unfolding s1_def using N'(2) that by (rule unlink_frame)
  have sg1: "seg s1 0 (rdw s1 hp) (xs @ ys) 0"
    unfolding s1_def using sg hp_def[symmetric] N(1,2) unfolding fl by (rule rmv_seg)
  have csize: "GET_SIZE s (a - 4) = Some csz" using mt(1) ch(2) sz by (rule GET_SIZE_01)
  define s2 where "s2 = wrw s1 (a - 4) (PACK csz 1)"
  define s3 where "s3 = wrw s2 (e - 8) (PACK csz 1)"
  have m1: "mapped s1 (a - 4) 4" "mapped s2 (e - 8) 4" "mapped s2 (a - 4) 4"
    using mt by (simp_all add: s1_def s2_def)
  have q2: "FTRP s2 a = Some (e - 8)"
  proof -
    have "rdw s2 (a - 4) = PACK csz 1" using ta by (simp add: s2_def rdw_wrw)
    with m1(3) have "GET_SIZE s2 (a - 4) = Some csz" using sz by (rule GET_SIZE_01)
    then show ?thesis by (simp add: FTRP_def HDRP_def e_def)
  qed
  have c': "\<not> MIN_BLKSIZE \<le> csz - asz" using c by simp
  have pl: "place s a asz = Some s3"
    using csize c' r1 m1 q2
    by (simp add: place_def HDRP_def PUT_Some s2_def[symmetric] s3_def[symmetric])
  have g3: "rdw s3 x = rdw s x" if "al4 x" "x \<notin> set (hp # lcells (xs @ ys))" "x \<noteq> a - 4" "x \<noteq> e - 8" for x
    using that ta f1 by (simp add: s3_def s2_def rdw_wrw)
  have fields: "heap_p s3 = hp" "mem_brk s3 = mem_brk s" "mem_start_brk s3 = mem_start_brk s"
    "mem_max_addr s3 = mem_max_addr s"
    by (simp_all add: s3_def s2_def s1_def hp_def)
  have inter: "x \<notin> set (hp # lcells (xs @ ys))" if "x \<in> set (tags hp bs)" for x
    using N'(3) that by auto
  have c1: "chain s3 hp pre"
  proof (rule chain_frame[OF ch(1)], rule ballI)
    fix x assume x: "x \<in> set (tags hp pre)"
    then have m: "x \<in> set (tags hp bs)" unfolding tg by simp
    have "al4 x" using al m by blast
    moreover have "x \<notin> set (hp # lcells (xs @ ys))" using m by (rule inter)
    moreover have "x \<noteq> a - 4" "x \<noteq> e - 8" using tn x by blast+
    ultimately show "rdw s3 x = rdw s x" by (rule g3)
  qed
  have c2: "chain s3 e post"
  proof (rule chain_frame[OF ch(4)], rule ballI)
    fix x assume x: "x \<in> set (tags e post)"
    then have m: "x \<in> set (tags hp bs)" unfolding tg by simp
    have "al4 x" using al m by blast
    moreover have "x \<notin> set (hp # lcells (xs @ ys))" using m by (rule inter)
    moreover have "x \<noteq> a - 4" "x \<noteq> e - 8" using tn x by blast+
    ultimately show "rdw s3 x = rdw s x" by (rule g3)
  qed
  have c3: "rdw s3 (a - 4) = PACK csz 1" "rdw s3 (e - 8) = PACK csz 1"
    using ta tn(3) by (simp_all add: s3_def s2_def rdw_wrw)
  have c4: "rdw s3 (mem_brk s - 4) = PACK 0 1"
    using bk H'(7) by (simp add: g3)
  have sg3: "seg s3 0 (rdw s3 hp) (xs @ ys) 0"
  proof -
    have "rdw s3 hp = rdw s1 hp" using ta tn(1,2) N'(2) by (auto simp add: s3_def s2_def rdw_wrw)
    moreover have "seg s2 0 (rdw s1 hp) (xs @ ys) 0"
      unfolding s2_def using ta tn(1,2) N'(2) by (intro seg_wrw sg1) auto
    then have "seg s3 0 (rdw s1 hp) (xs @ ys) 0"
      unfolding s3_def using ta tn(1,2) N'(2) by (intro seg_wrw) auto
    ultimately show ?thesis by simp
  qed
  have dst: "distinct (xs @ ys)" using H'(9) fl by auto
  define bs' where "bs' = pre @ (csz, True) # post"
  have fset: "set (xs @ ys) = set (frees hp bs')"
  proof -
    have "a \<notin> set (frees hp pre) \<union> set (frees e post)"
      using ds st frees_starts[of a hp pre] frees_starts[of a e post] by auto
    moreover have "a \<notin> set (xs @ ys)" using H'(9) fl by auto
    moreover have "set (xs @ ys) \<union> {a} = set (frees hp pre) \<union> set (frees e post) \<union> {a}"
      using H'(10) fr fl by auto
    ultimately show ?thesis by (auto simp add: bs'_def w e_def)
  qed
  have na: "no_adj bs'" using H'(11) bs_def bs'_def no_adj_alloc by simp
  have t1: "take 1 bs' = [(16, True)]" using pre by (cases pre) (simp_all add: bs'_def)
  have so: "sizes_ok bs'" using H'(4) by (simp add: bs_def bs'_def)
  have to: "unat hp + total bs' = unat (mem_brk s)" using H'(5) by (simp add: bs_def bs'_def)
  have cb: "chain s3 hp bs'" using c1 c2 c3 by (simp add: bs'_def w e_def)
  have "heap_ok s3 bs' (xs @ ys)"
    unfolding heap_ok_def heap_rel_def fields
    using t1 H'(2,12,13) so to cb c4 sg3 dst fset na by (intro conjI) (assumption | rule refl)+
  then show ?thesis using pl rm by (simp add: bs'_def)
qed

lemma map_replace:
  "a \<notin> set xs \<Longrightarrow> a \<notin> set ys \<Longrightarrow> map (\<lambda>q. if q = a then n else q) (xs @ a # ys) = xs @ n # ys"
  by (auto intro: map_idI)

lemma place_split:
  assumes H: "heap_ok s (pre @ (csz, False) # post) fl" and a: "a = wend (heap_p s) pre"
    and asz: "16 \<le> asz" "asz AND 7 = 0" "asz \<le> csz" and c: "16 \<le> csz - asz"
  shows "\<exists>s'. place s a asz = Some s' \<and>
           heap_ok s' (pre @ (asz, True) # (csz - asz, False) # post)
             (map (\<lambda>q. if q = a then a + asz else q) fl)"
proof -
  define hp where "hp = heap_p s"
  define bs where "bs = pre @ (csz, False) # post"
  define r where "r = csz - asz"
  define n where "n = a + asz"
  define e where "e = a + csz"
  define bs' where "bs' = pre @ (asz, True) # (r, False) # post"
  have H0: "heap_rel s bs bs fl" using H by (simp add: heap_ok_def bs_def)
  note H' = heap_okD[OF H0, folded hp_def]
  have pre: "pre \<noteq> []" "take 1 pre = [(16, True)]"
    using H'(1) prologue_first unfolding bs_def by blast+
  have w: "wend hp pre = a" using a hp_def by simp
  have sz: "csz AND 7 = 0" using H'(4) by (simp add: bs_def)
  have rz: "r AND 7 = 0" using sz asz(2) al8_sub[of csz asz] by (simp add: al8_def r_def)
  have ur: "unat asz + unat r = unat csz"
    using asz(3) by (simp add: r_def unat_minus_nowrap word_le_nat_alt)
  have ne: "n + r = e" "n - 8 = a + asz - 8" by (simp_all add: n_def r_def e_def)
  have so: "sizes_ok bs'" using H'(4) asz c rz by (simp add: bs_def bs'_def r_def)
  have to: "unat hp + total bs' = unat (mem_brk s)" using H'(5) ur by (simp add: bs_def bs'_def)
  have t1: "take 1 bs' = [(16, True)]" using pre by (cases pre) (simp_all add: bs'_def)
  note G = geometry[OF so H'(2,3) to]
  note M = cells_mapped[OF so H'(12) to H'(13)]
  have ch: "chain s hp pre" "rdw s (a - 4) = PACK csz 0"
    "rdw s (e - 8) = PACK csz 0" "chain s e post"
    using H'(6) by (simp_all add: bs_def w e_def)
  have st: "starts hp bs' = starts hp pre @ a # n # starts e post"
    "starts hp bs = starts hp pre @ a # starts e post"
    by (simp_all add: bs_def bs'_def w n_def[symmetric] ne(1) e_def[symmetric])
  have fr: "frees hp bs = frees hp pre @ a # frees e post"
    "frees hp bs' = frees hp pre @ n # frees e post"
    by (simp_all add: bs_def bs'_def w n_def[symmetric] ne(1) e_def[symmetric])
  have tg: "tags hp bs' = tags hp pre @ (a - 4) # (n - 8) # (n - 4) # (e - 8) # tags e post"
    by (simp add: bs'_def w n_def[symmetric] ne(1))
  note sp = cells_split_distinct[OF G(1)]
  have ds: "distinct (starts hp bs')" using sp distinct_lcells_imp by blast
  have hps: "hp \<in> set (starts hp bs')" using t1 by (rule starts_hd)
  have sub0: "set fl \<subseteq> set (starts hp bs)" using H'(10) frees_starts by blast
  have hpf: "hp \<notin> set (n # fl)"
  proof -
    have "hp \<in> set (starts hp pre)" using pre(2) by (rule starts_hd)
    then have "hp \<noteq> n" "hp \<noteq> a" using ds st(1) by auto
    moreover have "hp \<notin> set (frees hp pre)" using pre(2) ds st(1) frees_prologue[of pre hp] by auto
    moreover have "hp \<notin> set (frees e post)" using ds st(1) \<open>hp \<in> set (starts hp pre)\<close> frees_starts[of hp e post] by auto
    ultimately show ?thesis using H'(10) fr(1) by auto
  qed
  have nfl: "n \<notin> set fl" using sub0 st ds by auto
  have sub: "set (n # fl) \<subseteq> set (starts hp bs')" using sub0 st by auto
  have dnf: "distinct (n # fl)" using nfl H'(9) by simp
  note N = nodes_ok[OF G(1,2) dnf sub hps hpf]
  have "a \<in> set fl" using H'(10) fr by simp
  then obtain xs ys where fl: "fl = xs @ a # ys" by (meson split_list)
  have axy: "a \<notin> set xs" "a \<notin> set ys" using H'(9) fl by auto
  have rm: "map (\<lambda>q. if q = a then a + asz else q) fl = xs @ n # ys"
    unfolding fl n_def using axy by (rule map_replace)
  have TS0: "set (tags hp bs') \<subseteq> set (cells hp bs')" unfolding cells_split[of hp bs'] by blast
  have al: "\<forall>c\<in>set (tags hp bs'). al4 c" using G(2) TS0 by blast
  have ta: "al4 (a - 4)" "al4 (n - 8)" "al4 (n - 4)" "al4 (e - 8)" using al tg by auto
  have td: "distinct [a - 4, n - 8, n - 4, e - 8]" using sp tg by auto
  have N1: "distinct (hp # n # (n + 4) # lcells (xs @ a # ys))"
    "\<forall>c\<in>set (hp # n # (n + 4) # lcells (xs @ a # ys)). al4 c"
    "set (hp # n # (n + 4) # lcells (xs @ a # ys)) \<inter> set (tags hp bs') = {}"
    using N fl by auto
  have tin: "t \<in> set (tags hp bs')" if "t \<in> {a - 4, n - 8, n - 4, e - 8}" for t
    unfolding tg using that by auto
  have tn: "t \<notin> set (hp # n # (n + 4) # lcells (xs @ a # ys))"
    if "t \<in> {a - 4, n - 8, n - 4, e - 8}" for t
    using N1(3) tin[OF that] by blast
  have tp: "t \<notin> set (tags hp pre) \<and> t \<notin> set (tags e post)"
    if "t \<in> {a - 4, n - 8, n - 4, e - 8}" for t
    using sp tg that by auto
  have LS: "set (hp # n # (n + 4) # lcells (xs @ a # ys)) \<subseteq> set (cells hp bs')"
  proof -
    have "set (lcells (n # fl)) \<subseteq> set (lcells (starts hp bs'))" using sub by (rule lcells_sub_set)
    moreover have "hp \<in> set (lcells (starts hp bs'))" using lcells_mem[OF hps] by simp
    ultimately show ?thesis unfolding cells_split[of hp bs'] fl by auto
  qed
  have TS: "{a - 4, n - 8, n - 4, e - 8} \<subseteq> set (cells hp bs')"
    using TS0 tin by blast
  have bk: "al4 (mem_brk s - 4)" "mem_brk s - 4 \<notin> set (hp # n # (n + 4) # lcells (xs @ a # ys))"
    "mem_brk s - 4 \<notin> {a - 4, n - 8, n - 4, e - 8}"
    using G(4,5) LS TS by blast+
  have mn: "\<forall>c\<in>set (hp # n # (n + 4) # lcells (xs @ a # ys)). mapped s c 4"
    using LS M(1) by blast
  have mt: "mapped s (a - 4) 4" "mapped s (n - 8) 4" "mapped s (n - 4) 4" "mapped s (e - 8) 4"
    using TS M(1) by auto
  define s1 where "s1 = wrw s (a - 4) (PACK asz 1)"
  define s2 where "s2 = wrw s1 (n - 8) (PACK asz 1)"
  define s3 where "s3 = relink s2 hp xs n ys"
  define s4 where "s4 = wrw s3 (n - 4) (PACK r 0)"
  define s5 where "s5 = wrw s4 (e - 8) (PACK r 0)"
  have mp: "mapped s1 q k = mapped s q k" "mapped s2 q k = mapped s q k"
    "mapped s3 q k = mapped s q k" "mapped s4 q k = mapped s q k" for q k
    by (simp_all add: s1_def s2_def s3_def s4_def)
  have g2: "rdw s2 x = rdw s x" if "al4 x" "x \<noteq> a - 4" "x \<noteq> n - 8" for x
    using that ta by (simp add: s2_def s1_def rdw_wrw)
  have d: "a - 4 \<noteq> n - 8" "a - 4 \<noteq> n - 4" "a - 4 \<noteq> e - 8" "n - 8 \<noteq> n - 4"
    "n - 8 \<noteq> e - 8" "n - 4 \<noteq> e - 8" using td by auto
  have h2: "rdw s2 (a - 4) = PACK asz 1" "rdw s2 (n - 8) = PACK asz 1"
    using ta d by (simp_all add: s2_def s1_def rdw_wrw)
  have sg: "seg s 0 (rdw s hp) (xs @ a # ys) 0" using H'(8) fl by simp
  have sg2: "seg s2 0 (rdw s2 hp) (xs @ a # ys) 0"
  proof -
    have "rdw s2 hp = rdw s hp" using N1(2) tn[of "a - 4"] tn[of "n - 8"] by (intro g2) auto
    moreover have "seg s1 0 (rdw s hp) (xs @ a # ys) 0"
      unfolding s1_def using ta N1(2) tn[of "a - 4"] by (intro seg_wrw sg) auto
    then have "seg s2 0 (rdw s hp) (xs @ a # ys) 0"
      unfolding s2_def using ta N1(2) tn[of "n - 8"] by (intro seg_wrw) auto
    ultimately show ?thesis by simp
  qed
  have hp2: "heap_p s2 = hp" by (simp add: s2_def s1_def hp_def)
  have n0: "n \<noteq> 0"
  proof
    assume z: "n = 0"
    have lt: "unat hp + total bs' < 4294967296" using to unsigned_less[of "mem_brk s"] by simp
    have "n \<in> set (cells hp bs')" using LS by simp
    then have "unat hp \<le> unat n + 4" using cells_bounds[OF so H'(3) lt] by blast
    then show False using z H'(3) by simp
  qed
  have N2: "\<forall>x\<in>set (hp # n # (n + 4) # lcells (xs @ ys)). al4 x" using N1(2) by auto
  have g3: "rdw s3 x = rdw s2 x" if "al4 x" "x \<notin> set (hp # n # (n + 4) # lcells (xs @ ys))" for x
    unfolding s3_def using N2 that by (rule relink_frame)
  have sg3: "seg s3 0 (rdw s3 hp) (xs @ n # ys) 0"
    unfolding s3_def using sg2 hp2 n0 N1(1,2) by (rule relink_seg)
  have csize: "GET_SIZE s (a - 4) = Some csz" using mt(1) ch(2) sz by (rule GET_SIZE_01)
  have q1: "FTRP s1 a = Some (n - 8)"
  proof -
    have "rdw s1 (a - 4) = PACK asz 1" using ta by (simp add: s1_def rdw_wrw)
    moreover have "mapped s1 (a - 4) 4" using mt by (simp add: mp)
    ultimately have "GET_SIZE s1 (a - 4) = Some asz" using asz(2) by (intro GET_SIZE_01(2))
    then show ?thesis by (simp add: FTRP_def HDRP_def n_def)
  qed
  have q2: "NEXT_BLKP s2 a = Some n"
  proof -
    have "mapped s2 (a - 4) 4" using mt by (simp add: mp)
    then have "GET_SIZE s2 (a - 4) = Some asz" using h2(1) asz(2) by (rule GET_SIZE_01)
    then show ?thesis by (simp add: NEXT_BLKP_def HDRP_def n_def)
  qed
  have q4: "FTRP s4 n = Some (e - 8)"
  proof -
    have "rdw s4 (n - 4) = PACK r 0" using ta by (simp add: s4_def rdw_wrw)
    moreover have "mapped s4 (n - 4) 4" using mt by (simp add: mp)
    ultimately have "GET_SIZE s4 (n - 4) = Some r" using rz by (intro GET_SIZE_01(1))
    then show ?thesis using ne(1) by (simp add: FTRP_def HDRP_def)
  qed
  note m2 = seg_mid[OF sg2]
  have lk: "PREV s2 a = Some (lastp xs 0)" "NEXT s2 a = Some (hdp ys 0)"
    using mn m2(1,2) by (simp_all add: links_Some mp)
  have mn2: "\<forall>c \<in> set (hp # n # (n + 4) # lcells (xs @ ys)). mapped s2 c 4"
    using mn by (simp add: mp)
  note rl = relink_eq[OF hp2 m2(4,5) mn2, folded s3_def]
  have c': "MIN_BLKSIZE \<le> csz - asz" using c by simp
  have pl: "place s a asz = Some s5"
    using csize c' mt q1 q2 lk rl q4
    by (simp add: place_def HDRP_def PUT_Some mp s1_def[symmetric] s2_def[symmetric]
        r_def[symmetric] s4_def[symmetric] s5_def[symmetric])
  have g5: "rdw s5 x = rdw s x"
    if "al4 x" "x \<notin> set (hp # n # (n + 4) # lcells (xs @ ys))" "x \<notin> {a - 4, n - 8, n - 4, e - 8}"
    for x
    using that ta g3 g2 by (simp add: s5_def s4_def rdw_wrw)
  have fields: "heap_p s5 = hp" "mem_brk s5 = mem_brk s" "mem_start_brk s5 = mem_start_brk s"
    "mem_max_addr s5 = mem_max_addr s"
    by (simp_all add: s5_def s4_def s3_def s2_def s1_def hp_def)
  have inter: "x \<notin> set (hp # n # (n + 4) # lcells (xs @ ys))" if "x \<in> set (tags hp bs')" for x
    using N1(3) that by auto
  have c1: "chain s5 hp pre"
  proof (rule chain_frame[OF ch(1)], rule ballI)
    fix x assume x: "x \<in> set (tags hp pre)"
    then have m: "x \<in> set (tags hp bs')" unfolding tg by simp
    have "al4 x" using al m by blast
    moreover have "x \<notin> set (hp # n # (n + 4) # lcells (xs @ ys))" using m by (rule inter)
    moreover have "x \<notin> {a - 4, n - 8, n - 4, e - 8}" using tp x by blast
    ultimately show "rdw s5 x = rdw s x" by (rule g5)
  qed
  have c2: "chain s5 e post"
  proof (rule chain_frame[OF ch(4)], rule ballI)
    fix x assume x: "x \<in> set (tags e post)"
    then have m: "x \<in> set (tags hp bs')" unfolding tg by simp
    have "al4 x" using al m by blast
    moreover have "x \<notin> set (hp # n # (n + 4) # lcells (xs @ ys))" using m by (rule inter)
    moreover have "x \<notin> {a - 4, n - 8, n - 4, e - 8}" using tp x by blast
    ultimately show "rdw s5 x = rdw s x" by (rule g5)
  qed
  have i3: "t \<notin> set (hp # n # (n + 4) # lcells (xs @ ys))"
    if "t \<in> {a - 4, n - 8, n - 4, e - 8}" for t
    using that by (intro inter tin)
  have g3a: "rdw s3 (a - 4) = rdw s2 (a - 4)" using ta(1) by (rule g3) (rule i3, simp)
  have g3b: "rdw s3 (n - 8) = rdw s2 (n - 8)" using ta(2) by (rule g3) (rule i3, simp)
  have c3: "rdw s5 (a - 4) = PACK asz 1" "rdw s5 (n - 8) = PACK asz 1"
    "rdw s5 (n - 4) = PACK r 0" "rdw s5 (e - 8) = PACK r 0"
    using ta d h2 g3a g3b by (simp_all add: s5_def s4_def rdw_wrw)
  have b3: "mem_brk s - 4 \<notin> set (hp # n # (n + 4) # lcells (xs @ ys))" using bk(2) by auto
  have c4: "rdw s5 (mem_brk s - 4) = PACK 0 1"
    using g5[OF bk(1) b3 bk(3)] H'(7) by simp
  have sg5: "seg s5 0 (rdw s5 hp) (xs @ n # ys) 0"
  proof -
    have N3: "\<forall>x\<in>set (lcells (xs @ n # ys)). al4 x" using N1(2) by auto
    have o: "n - 4 \<notin> set (lcells (xs @ n # ys))" "e - 8 \<notin> set (lcells (xs @ n # ys))"
      "hp \<noteq> n - 4" "hp \<noteq> e - 8" "al4 hp"
      using tn[of "n - 4"] tn[of "e - 8"] N1(2) by auto
    have "rdw s5 hp = rdw s3 hp" using ta o by (simp add: s5_def s4_def rdw_wrw)
    moreover have "seg s4 0 (rdw s3 hp) (xs @ n # ys) 0"
      unfolding s4_def using sg3 ta(3) o(1) N3 by (rule seg_wrw)
    then have "seg s5 0 (rdw s3 hp) (xs @ n # ys) 0"
      unfolding s5_def using ta(4) o(2) N3 by (rule seg_wrw)
    ultimately show ?thesis by simp
  qed
  have dst: "distinct (xs @ n # ys)" using H'(9) fl nfl by auto
  have fset: "set (xs @ n # ys) = set (frees hp bs')"
  proof -
    have "a \<notin> set (frees hp pre) \<union> set (frees e post)"
      using ds st frees_starts[of a hp pre] frees_starts[of a e post] by auto
    moreover have "set (xs @ ys) \<union> {a} = set (frees hp pre) \<union> set (frees e post) \<union> {a}"
      using H'(10) fr(1) fl by auto
    moreover have "a \<notin> set (xs @ ys)" using axy by simp
    ultimately have "set (xs @ ys) = set (frees hp pre) \<union> set (frees e post)" by blast
    then show ?thesis unfolding fr(2) by auto
  qed
  have na: "no_adj bs'" using H'(11) bs_def bs'_def no_adj_split by simp
  have cb: "chain s5 hp bs'" using c1 c2 c3 by (simp add: bs'_def w n_def[symmetric] ne(1))
  have "heap_ok s5 bs' (xs @ n # ys)"
    unfolding heap_ok_def heap_rel_def fields
    using t1 H'(2,12,13) so to cb c4 sg5 dst fset na by (intro conjI) (assumption | rule refl)+
  then show ?thesis using pl rm by (simp add: bs'_def r_def)
qed

section \<open>Fit search\<close>

lemma chain_size:
  "chain s a bs \<Longrightarrow> sizes_ok bs \<Longrightarrow> q \<in> set (starts a bs)
   \<Longrightarrow> rdw s (q - 4) AND NOT 7 = size_of a bs q"
proof (induction bs arbitrary: a)
  case Nil
  then show ?case by simp
next
  case (Cons b bs)
  obtain sz al where b: "b = (sz, al)" by (cases b)
  have "al8 sz" using Cons.prems(2) b by (simp add: al8_def)
  then have p: "PACK sz (of_bool al) AND NOT 7 = sz" by (rule PACK_size)
  show ?case
  proof (cases "q = a")
    case True
    then show ?thesis using Cons.prems(1) b p by simp
  next
    case False
    then show ?thesis using Cons.IH[of "a + sz"] Cons.prems b by simp
  qed
qed

lemma find_fit_loop_seg:
  assumes "seg s prv q (q # qs) 0"
    "\<forall>x \<in> set (q # qs). mapped s x 4 \<and> GET_SIZE s (HDRP x) = Some (sz x)"
  shows "find_fit_loop s asize q =
           Some (case List.find (\<lambda>x. asize \<le> sz x) (q # qs) of Some x \<Rightarrow> x | None \<Rightarrow> NULL)"
  using assms
proof (induction qs arbitrary: q prv)
  case Nil
  then have "rdw s q = 0" by simp
  then show ?case using Nil.prems(2)
    by (subst find_fit_loop.simps) (simp add: links_Some)
next
  case (Cons h qs)
  have s: "seg s q h (h # qs) 0" and h: "rdw s q = h" "h \<noteq> 0"
    using Cons.prems(1) by auto
  have m: "\<forall>x \<in> set (h # qs). mapped s x 4 \<and> GET_SIZE s (HDRP x) = Some (sz x)"
    using Cons.prems(2) by simp
  have r: "find_fit_loop s asize h =
      Some (case List.find (\<lambda>x. asize \<le> sz x) (h # qs) of Some x \<Rightarrow> x | None \<Rightarrow> NULL)"
    using s m by (rule Cons.IH)
  have q: "mapped s q 4" "GET_SIZE s (HDRP q) = Some (sz q)" using Cons.prems(2) by simp_all
  show ?case
    apply (subst find_fit_loop.simps)
    apply (simp add: q links_Some h r del: List.find.simps(2))
    apply simp
    done
qed

lemma free_sizes:
  assumes "heap_ok s bs fl" "q \<in> set fl"
  shows "mapped s q 4" "GET_SIZE s (HDRP q) = Some (size_of (heap_p s) bs q)"
proof -
  define hp where "hp = heap_p s"
  have H0: "heap_rel s bs bs fl" using assms(1) by (simp add: heap_ok_def)
  note H' = heap_okD[OF H0, folded hp_def]
  note M = cells_mapped[OF H'(4,12,5,13)]
  have qs: "q \<in> set (starts hp bs)" using assms(2) H'(10) frees_starts by blast
  then have "q \<in> set (cells hp bs)" using cells_split[of hp bs] lcells_mem by blast
  then show "mapped s q 4" using M(1) by blast
  have "q - 4 \<in> set (cells hp bs)" using qs
    by (induction bs arbitrary: hp) auto
  then have "mapped s (q - 4) 4" using M(1) by blast
  moreover have "rdw s (q - 4) AND NOT 7 = size_of hp bs q"
    using H'(6,4) qs by (rule chain_size)
  ultimately show "GET_SIZE s (HDRP q) = Some (size_of (heap_p s) bs q)"
    by (simp add: GET_SIZE_Some HDRP_def hp_def)
qed

lemma root_mapped:
  assumes "heap_ok s bs fl"
  shows "mapped s (heap_p s) 4"
proof -
  define hp where "hp = heap_p s"
  have H0: "heap_rel s bs bs fl" using assms(1) by (simp add: heap_ok_def)
  note H' = heap_okD[OF H0, folded hp_def]
  note M = cells_mapped[OF H'(4,12,5,13)]
  have "hp \<in> set (starts hp bs)" using H'(1) by (rule starts_hd)
  then have "hp \<in> set (cells hp bs)" using cells_split[of hp bs] lcells_mem by blast
  then show ?thesis using M(1) hp_def by blast
qed

text \<open>
  C5. In a state that satisfies the heap invariant, with the free list \<open>fl\<close> in the
  order of its next-links from the root, \<^verbatim>\<open>find_fit(asize)\<close> returns, and its result is
  the first block of \<open>fl\<close> whose size is at least \<open>asize\<close>: first fit, whatever the sizes
  of the later blocks. When \<open>fl\<close> is empty or no block of it is large enough, the result
  is the null pointer.
\<close>

theorem find_fit_first_fit:
  assumes "heap_ok s bs fl"
  shows "find_fit s asize = Some (first_fit (heap_p s) bs asize fl)"
proof -
  have sg: "seg s 0 (rdw s (heap_p s)) fl 0"
    using assms by (simp add: heap_ok_def heap_rel_def)
  have r: "NEXT s (heap_p s) = Some (rdw s (heap_p s))"
    using root_mapped[OF assms] by (simp add: links_Some)
  show ?thesis
  proof (cases fl)
    case Nil
    then have "rdw s (heap_p s) = 0" using sg by simp
    then show ?thesis using Nil r by (simp add: find_fit_def first_fit_def)
  next
    case (Cons q qs)
    then have h: "rdw s (heap_p s) = q" "q \<noteq> 0" and s: "seg s 0 q (q # qs) 0"
      using sg by auto
    have m: "\<forall>x \<in> set (q # qs). mapped s x 4
        \<and> GET_SIZE s (HDRP x) = Some (size_of (heap_p s) bs x)"
      using free_sizes[OF assms] Cons by blast
    show ?thesis
      using find_fit_loop_seg[OF s m, of asize] h r Cons
      by (simp add: find_fit_def first_fit_def del: List.find.simps(2))
  qed
qed

text \<open>
  C4. Let the state satisfy the heap invariant, let \<open>bp\<close> be a free block of size \<open>csz\<close>
  in it, and let the adjusted size \<open>asz\<close>, a multiple of 8 and at least 16, fit:
  \<open>asz \<le> csz\<close>. Then \<^verbatim>\<open>place(bp, asz)\<close> returns, and
  \<^item> if \<open>csz - asz\<close> is at least 16, the minimum block size, the block is split: in
    the block list an allocated block of size \<open>asz\<close> at \<open>bp\<close> is followed by a free block
    of size \<open>csz - asz\<close>, and the free list is the old one with \<open>bp + asz\<close> standing
    where \<open>bp\<close> stood, so the rest has the old neighbours of \<open>bp\<close> as its prev and next
    and is the head when \<open>bp\<close> was;
  \<^item> otherwise the block is not split: \<open>bp\<close> is allocated with its full size \<open>csz\<close> and
    is taken off the free list.

  In both cases the result satisfies the heap invariant again, for these blocks and this
  list.
\<close>

theorem place_splits_iff_remainder_fits:
  assumes "heap_ok s (pre @ (csz, False) # post) fl" "bp = wend (heap_p s) pre"
    and "16 \<le> asz" "asz AND 7 = 0" "asz \<le> csz"
  shows "\<exists>s'. place s bp asz = Some s' \<and>
           (if 16 \<le> csz - asz
            then heap_ok s' (pre @ (asz, True) # (csz - asz, False) # post)
                   (map (\<lambda>q. if q = bp then bp + asz else q) fl)
            else heap_ok s' (pre @ (csz, True) # post) (remove1 bp fl))"
proof (cases "16 \<le> csz - asz")
  case True
  then show ?thesis using place_split[OF assms] by simp
next
  case False
  then show ?thesis using place_whole[OF assms(1,2) False] by simp
qed

section \<open>Fit search and placement on a state reached by the allocator\<close>

lemma two_step: "mm_malloc s_one 8 = Some (s_two, 0x1028)"
  by (simp add: exec s_init_def s_one_def s_two_def cong: weak)

lemma three_step: "mm_free s_two 0x1018 = Some s_three"
  by (simp add: exec s_init_def s_two_def s_three_def cong: weak)

lemmas eval_ok = heap_ok_def heap_rel_def rdw_def word_at_words PACK_def

lemma s_three_ok:
  "heap_ok s_three [(16, True), (16, False), (16, True), (224, False)] [0x1018, 0x1038]"
  by (simp add: eval_ok s_three_def s_init_def)

theorem find_fit_first_fit_witness:
  "heap_ok s_three [(16, True), (16, False), (16, True), (224, False)] [0x1018, 0x1038]
   \<and> find_fit s_three 24 = Some 0x1038
   \<and> find_fit s_three 16 = Some 0x1018
   \<and> find_fit s_three 232 = Some NULL"
  using s_three_ok
    find_fit_first_fit[of s_three "[(16, True), (16, False), (16, True), (224, False)]"
      "[0x1018, 0x1038]"]
  by (simp add: first_fit_def s_three_def s_init_def)

theorem place_splits_iff_remainder_fits_witness:
  "heap_ok s_three ([(16, True), (16, False), (16, True)] @ (224, False) # [])
     [0x1018, 0x1038]
   \<and> (\<exists>s'. place s_three 0x1038 24 = Some s'
          \<and> heap_ok s' [(16, True), (16, False), (16, True), (24, True), (200, False)]
                [0x1018, 0x1050])
   \<and> (\<exists>s'. place s_three 0x1038 216 = Some s'
          \<and> heap_ok s' [(16, True), (16, False), (16, True), (224, True)] [0x1018])"
proof -
  have ok: "heap_ok s_three ([(16, True), (16, False), (16, True)] @ (224, False) # [])
      [0x1018, 0x1038]"
    using s_three_ok by simp
  have p: "0x1038 = wend (heap_p s_three) [(16, True), (16, False), (16, True)]"
    by (simp add: s_three_def s_init_def)
  have a: "(16 :: word32) \<le> 24" "(24 :: word32) AND 7 = 0" "(24 :: word32) \<le> 224"
    "(16 :: word32) \<le> 216" "(216 :: word32) AND 7 = 0" "(216 :: word32) \<le> 224"
    by simp_all
  have "\<exists>s'. place s_three 0x1038 24 = Some s'
          \<and> heap_ok s' [(16, True), (16, False), (16, True), (24, True), (200, False)]
                [0x1018, 0x1050]"
    using place_splits_iff_remainder_fits[OF ok p a(1,2,3)] by simp
  moreover have "\<exists>s'. place s_three 0x1038 216 = Some s'
          \<and> heap_ok s' [(16, True), (16, False), (16, True), (224, True)] [0x1018]"
    using place_splits_iff_remainder_fits[OF ok p a(4,5,6)] by simp
  ultimately show ?thesis using ok by blast
qed

section \<open>Steps that keep the tiling and the list\<close>

lemma heap_invD:
  assumes "heap_inv s bs fl"
  shows "take 1 bs = [(16, True)]" "heap_p s AND 7 = 0" "8 \<le> unat (heap_p s)" "sizes_ok bs"
    "unat (heap_p s) + total bs = unat (mem_brk s)" "chain s (heap_p s) bs"
    "rdw s (mem_brk s - 4) = PACK 0 1"
    "seg s 0 (rdw s (heap_p s)) fl 0" "distinct fl" "set fl \<subseteq> set (starts (heap_p s) bs)"
    "heap_p s \<notin> set fl" "unat (mem_start_brk s) + 8 \<le> unat (heap_p s)"
    "unat (mem_brk s) \<le> unat (mem_max_addr s)"
  using assms by (simp_all add: heap_inv_def)

lemma heap_rel_inv:
  assumes "heap_rel s bs ls fl"
  shows "heap_inv s bs fl"
proof -
  note H = heap_okD[OF assms]
  note G = geometry[OF H(4,2,3,5)]
  note sp = cells_split_distinct[OF G(1)]
  have ds: "distinct (starts (heap_p s) bs)" using sp distinct_lcells_imp by blast
  have se: "starts (heap_p s) ls = starts (heap_p s) bs" using H(15) by (rule starts_map_fst)
  have sub: "set fl \<subseteq> set (starts (heap_p s) bs)"
    using H(10) frees_starts[of _ "heap_p s" ls] se by auto
  have "heap_p s \<notin> set (frees (heap_p s) ls)"
    using H(14) ds se frees_prologue[of ls "heap_p s"] by simp
  then have "heap_p s \<notin> set fl" using H(10) by simp
  then show ?thesis unfolding heap_inv_def using H sub by simp
qed

lemma heap_inv_ok:
  assumes "heap_inv s bs fl" "set fl = set (frees (heap_p s) bs)" "no_adj bs"
  shows "heap_ok s bs fl"
  using assms by (simp add: heap_ok_def heap_rel_def heap_inv_def)

lemma inv_nodes:
  assumes "heap_inv s bs fl"
  shows "distinct (heap_p s # lcells fl)" "\<forall>c\<in>set (heap_p s # lcells fl). al4 c"
    "set (heap_p s # lcells fl) \<inter> set (tags (heap_p s) bs) = {}"
    "\<forall>c\<in>set (heap_p s # lcells fl). mapped s c 4"
    "\<forall>c\<in>set (tags (heap_p s) bs). al4 c \<and> mapped s c 4"
    "al4 (mem_brk s - 4)" "mapped s (mem_brk s - 4) 4"
    "mem_brk s - 4 \<notin> set (heap_p s # lcells fl)" "mem_brk s - 4 \<notin> set (tags (heap_p s) bs)"
    "distinct (tags (heap_p s) bs)" "0 \<notin> set (starts (heap_p s) bs)"
    "distinct (starts (heap_p s) bs)" "wend (heap_p s) bs = mem_brk s"
proof -
  define hp where "hp = heap_p s"
  note H = heap_invD[OF assms, folded hp_def]
  note G = geometry[OF H(4,2,3,5)]
  note M = cells_mapped[OF H(4,12,5,13)]
  note sp = cells_split_distinct[OF G(1)]
  have hps: "hp \<in> set (starts hp bs)" using H(1) by (rule starts_hd)
  note N = nodes_ok[OF G(1,2) H(9,10) hps H(11)]
  have LS: "set (hp # lcells fl) \<subseteq> set (cells hp bs)"
  proof -
    have "set (lcells fl) \<subseteq> set (lcells (starts hp bs))" using H(10) by (rule lcells_sub_set)
    moreover have "hp \<in> set (lcells (starts hp bs))" using lcells_mem[OF hps] by simp
    ultimately show ?thesis unfolding cells_split[of hp bs] by auto
  qed
  have TS: "set (tags hp bs) \<subseteq> set (cells hp bs)" unfolding cells_split[of hp bs] by blast
  show "distinct (hp # lcells fl)" "\<forall>c\<in>set (hp # lcells fl). al4 c"
    "set (hp # lcells fl) \<inter> set (tags hp bs) = {}" using N by blast+
  show "\<forall>c\<in>set (hp # lcells fl). mapped s c 4" using LS M(1) by blast
  show "\<forall>c\<in>set (tags hp bs). al4 c \<and> mapped s c 4" using TS G(2) M(1) by blast
  show "al4 (mem_brk s - 4)" "mapped s (mem_brk s - 4) 4" using G(5) M(2) by blast+
  show "mem_brk s - 4 \<notin> set (hp # lcells fl)" "mem_brk s - 4 \<notin> set (tags hp bs)"
    using G(4) LS TS by blast+
  show "distinct (tags hp bs)" using sp by blast
  show "distinct (starts hp bs)" using sp distinct_lcells_imp by blast
  show "wend hp bs = mem_brk s" using G(3) .
  show "0 \<notin> set (starts hp bs)"
  proof
    assume z: "0 \<in> set (starts hp bs)"
    have lt: "unat hp + total bs < 4294967296" using H(5) unsigned_less[of "mem_brk s"] by simp
    have "0 \<in> set (cells hp bs)" using z cells_split[of hp bs] lcells_mem by blast
    then have "unat hp \<le> unat (0 :: word32) + 4" using cells_bounds[OF H(4,3) lt] by blast
    then show False using H(3) by simp
  qed
qed

lemma unlink_step:
  assumes "heap_inv s bs fl" "x \<in> set fl"
  shows "\<exists>s1. rmv_from_list s x = Some s1 \<and> heap_inv s1 bs (remove1 x fl)
           \<and> heap_p s1 = heap_p s"
proof -
  define hp where "hp = heap_p s"
  note H = heap_invD[OF assms(1), folded hp_def]
  note N = inv_nodes[OF assms(1), folded hp_def]
  obtain xs ys where fl: "fl = xs @ x # ys" using assms(2) by (meson split_list)
  have rm: "remove1 x fl = xs @ ys" using H(9) fl by (simp add: remove1_append)
  define s1 where "s1 = unlink s hp xs ys"
  have sg: "seg s 0 (rdw s hp) (xs @ x # ys) 0" using H(8) fl by simp
  have r1: "rmv_from_list s x = Some s1"
    unfolding s1_def using sg hp_def[symmetric] N(4)[unfolded fl] by (rule rmv_eq)
  have N': "\<forall>c\<in>set (hp # lcells (xs @ ys)). al4 c" using N(2) fl by auto
  have f1: "rdw s1 c = rdw s c" if "al4 c" "c \<notin> set (hp # lcells (xs @ ys))" for c
    unfolding s1_def using N' that by (rule unlink_frame)
  have sub: "set (hp # lcells (xs @ ys)) \<subseteq> set (hp # lcells fl)" using fl by auto
  have sg1: "seg s1 0 (rdw s1 hp) (xs @ ys) 0"
    unfolding s1_def using sg hp_def[symmetric] N(1,2)[unfolded fl] by (rule rmv_seg)
  have c1: "chain s1 hp bs"
  proof (rule chain_frame[OF H(6)], rule ballI)
    fix c assume c: "c \<in> set (tags hp bs)"
    then have "al4 c" using N(5) by blast
    moreover have "c \<notin> set (hp # lcells (xs @ ys))" using c N(3) sub by blast
    ultimately show "rdw s1 c = rdw s c" by (rule f1)
  qed
  have e1: "rdw s1 (mem_brk s - 4) = PACK 0 1"
    using f1[OF N(6)] N(8) sub H(7) by auto
  have fields: "heap_p s1 = hp" "mem_brk s1 = mem_brk s" "mem_start_brk s1 = mem_start_brk s"
    "mem_max_addr s1 = mem_max_addr s"
    by (simp_all add: s1_def hp_def)
  have d: "distinct (xs @ ys)" "set (xs @ ys) \<subseteq> set (starts hp bs)" "hp \<notin> set (xs @ ys)"
    using H(9,10,11) fl by auto
  have "heap_inv s1 bs (xs @ ys)"
    unfolding heap_inv_def fields
    using H(1,2,12,13,4,5) c1 e1 sg1 d by (intro conjI) assumption+
  then show ?thesis using r1 rm fields(1) hp_def by simp
qed

lemma push_step:
  assumes "heap_inv s bs fl" "a \<in> set (starts (heap_p s) bs)" "a \<notin> set fl" "a \<noteq> heap_p s"
  shows "\<exists>s1. insert_front_list s a = Some s1 \<and> heap_inv s1 bs (a # fl)
           \<and> heap_p s1 = heap_p s"
proof -
  define hp where "hp = heap_p s"
  note H = heap_invD[OF assms(1), folded hp_def]
  have d: "distinct (a # fl)" "set (a # fl) \<subseteq> set (starts hp bs)" "hp \<notin> set (a # fl)"
    using H(9,10,11) assms(2,3,4) hp_def by auto
  have I0: "heap_inv s bs fl" using assms(1) .
  note N0 = inv_nodes[OF I0, folded hp_def]
  have G: "distinct (cells hp bs)" "\<forall>c\<in>set (cells hp bs). al4 c"
    using geometry[OF H(4,2,3,5)] by blast+
  have hps: "hp \<in> set (starts hp bs)" using H(1) by (rule starts_hd)
  note N = nodes_ok[OF G d(1,2) hps d(3)]
  note M = cells_mapped[OF H(4,12,5,13)]
  have LS: "set (hp # lcells (a # fl)) \<subseteq> set (cells hp bs)"
  proof -
    have "set (lcells (a # fl)) \<subseteq> set (lcells (starts hp bs))" using d(2) by (rule lcells_sub_set)
    moreover have "hp \<in> set (lcells (starts hp bs))" using lcells_mem[OF hps] by simp
    ultimately show ?thesis unfolding cells_split[of hp bs] by auto
  qed
  have mn: "\<forall>c\<in>set (hp # lcells (a # fl)). mapped s c 4" using LS M(1) by blast
  have a0: "a \<noteq> 0" using N0(11) assms(2) hp_def by auto
  define s1 where "s1 = push s hp a fl"
  have r1: "insert_front_list s a = Some s1"
    unfolding s1_def using H(8) hp_def[symmetric] mn by (rule insert_eq)
  have f1: "rdw s1 c = rdw s c" if "al4 c" "c \<notin> set (hp # lcells (a # fl))" for c
    unfolding s1_def using N(2) that by (rule push_frame)
  have sg1: "seg s1 0 (rdw s1 hp) (a # fl) 0"
    unfolding s1_def using H(8) hp_def[symmetric] a0 N(1,2) by (rule insert_seg)
  have c1: "chain s1 hp bs"
  proof (rule chain_frame[OF H(6)], rule ballI)
    fix c assume c: "c \<in> set (tags hp bs)"
    then have "al4 c" using N0(5) by blast
    moreover have "c \<notin> set (hp # lcells (a # fl))" using c N(3) by blast
    ultimately show "rdw s1 c = rdw s c" by (rule f1)
  qed
  have "mem_brk s - 4 \<notin> set (cells hp bs)" using geometry[OF H(4,2,3,5)] by blast
  then have "mem_brk s - 4 \<notin> set (hp # lcells (a # fl))" using LS by blast
  then have e1: "rdw s1 (mem_brk s - 4) = PACK 0 1"
    using f1[OF N0(6)] H(7) by auto
  have fields: "heap_p s1 = hp" "mem_brk s1 = mem_brk s" "mem_start_brk s1 = mem_start_brk s"
    "mem_max_addr s1 = mem_max_addr s"
    by (simp_all add: s1_def hp_def)
  have "heap_inv s1 bs (a # fl)"
    unfolding heap_inv_def fields
    using H(1,2,12,13,4,5) c1 e1 sg1 d by (intro conjI) assumption+
  then show ?thesis using r1 fields(1) hp_def by simp
qed

section \<open>Rewriting the tags of a merged block\<close>

lemma wend_wsum: "wend a M = a + wsum M"
  by (induction M arbitrary: a) (auto simp add: add.assoc)

lemma unat_wsum: "total M < 4294967296 \<Longrightarrow> unat (wsum M) = total M"
proof (induction M)
  case Nil
  then show ?case by simp
next
  case (Cons b M)
  obtain sz al where b: "b = (sz, al)" by (cases b)
  have "unat (wsum M) = total M" using Cons b by simp
  then show ?case using Cons.prems b by (simp add: unat_plus_nowrap)
qed

lemma al8_wsum: "sizes_ok M \<Longrightarrow> al8 (wsum M)"
proof (induction M)
  case Nil
  then show ?case by (simp add: al_num)
next
  case (Cons b M)
  obtain sz al where b: "b = (sz, al)" by (cases b)
  have "al8 sz" using Cons.prems b by (simp add: al8_def)
  then show ?case using Cons b by (auto intro: al8_add)
qed

lemma first_tag: "M \<noteq> [] \<Longrightarrow> a - 4 \<in> set (tags a M)"
  by (cases M) auto

lemma last_tag: "M \<noteq> [] \<Longrightarrow> wend a M - 8 \<in> set (tags a M)"
proof (induction M arbitrary: a)
  case Nil
  then show ?case by simp
next
  case (Cons b M)
  obtain sz al where b: "b = (sz, al)" by (cases b)
  show ?case using Cons.IH[of "a + sz"] b by (cases "M = []") auto
qed

lemma total_first: "M \<noteq> [] \<Longrightarrow> sizes_ok M \<Longrightarrow> 16 \<le> total M"
  by (cases M) (auto simp add: word_le_nat_alt)

lemma retag_step:
  assumes I: "heap_inv s (A @ M @ B) fl" and ne: "M \<noteq> []" "A \<noteq> []"
    and a: "a = wend (heap_p s) A" and m: "m = wsum M"
    and di: "set fl \<inter> set (starts a M) = {}"
  shows "\<exists>s2 s3. PUT s (HDRP a) (PACK m 0) = Some s2 \<and> FTRP s2 a = Some (a + m - 8)
           \<and> PUT s2 (a + m - 8) (PACK m 0) = Some s3
           \<and> heap_inv s3 (A @ (m, False) # B) fl \<and> heap_p s3 = heap_p s"
proof -
  define hp where "hp = heap_p s"
  define bs where "bs = A @ M @ B"
  define bs' where "bs' = A @ (m, False) # B"
  define e where "e = a + m"
  have I0: "heap_inv s bs fl" using I bs_def by simp
  note H = heap_invD[OF I0, folded hp_def]
  note N = inv_nodes[OF I0, folded hp_def]
  have w: "wend hp A = a" using a hp_def by simp
  have we: "wend a M = e" by (simp add: wend_wsum m e_def)
  have ub: "unat (mem_brk s) < 4294967296" using unsigned_less[of "mem_brk s"] by simp
  have lt: "total bs < 4294967296" using H(5) ub by simp
  then have ltm: "total M < 4294967296" by (simp add: bs_def)
  have um: "unat m = total M" using unat_wsum[OF ltm] m by simp
  have sm: "sizes_ok M" using H(4) by (simp add: bs_def)
  have m8: "m AND 7 = 0" using al8_wsum[OF sm] m by (simp add: al8_def)
  have m16: "16 \<le> m" using total_first[OF ne(1) sm] um by (simp add: word_le_nat_alt)
  have so: "sizes_ok bs'" using H(4) m8 m16 by (simp add: bs_def bs'_def)
  have to: "unat hp + total bs' = unat (mem_brk s)" using H(5) um by (simp add: bs_def bs'_def)
  have t1: "take 1 bs' = [(16, True)]" using H(1) ne(2) by (cases A) (simp_all add: bs_def bs'_def)
  have tg: "tags hp bs = tags hp A @ tags a M @ tags e B"
    by (simp add: bs_def w we)
  have ti: "a - 4 \<in> set (tags a M)" "e - 8 \<in> set (tags a M)"
    using first_tag[OF ne(1)] last_tag[OF ne(1), of a] we by simp_all
  then have tb: "a - 4 \<in> set (tags hp bs)" "e - 8 \<in> set (tags hp bs)" using tg by simp_all
  have ta: "al4 (a - 4)" "al4 (e - 8)" "mapped s (a - 4) 4" "mapped s (e - 8) 4"
    using N(5) tb by blast+
  have tn: "a - 4 \<notin> set (hp # lcells fl)" "e - 8 \<notin> set (hp # lcells fl)"
    using N(3) tb by blast+
  have tAB: "a - 4 \<notin> set (tags hp A)" "e - 8 \<notin> set (tags hp A)"
    "a - 4 \<notin> set (tags e B)" "e - 8 \<notin> set (tags e B)"
    using N(10) ti unfolding tg by auto
  have ch: "chain s hp A" "chain s e B" using H(6) by (simp_all add: bs_def w we)
  have st: "starts hp bs = starts hp A @ starts a M @ starts e B"
    "starts hp bs' = starts hp A @ a # starts e B"
    by (simp_all add: bs_def bs'_def w we e_def)
  define s2 where "s2 = wrw s (a - 4) (PACK m 0)"
  define s3 where "s3 = wrw s2 (e - 8) (PACK m 0)"
  have p1: "PUT s (HDRP a) (PACK m 0) = Some s2"
    using ta(3) by (simp add: HDRP_def PUT_Some s2_def)
  have q2: "FTRP s2 a = Some (a + m - 8)"
  proof -
    have "rdw s2 (a - 4) = PACK m 0" using ta by (simp add: s2_def rdw_wrw)
    moreover have "mapped s2 (a - 4) 4" using ta(3) by (simp add: s2_def)
    ultimately have "GET_SIZE s2 (a - 4) = Some m" using m8 by (intro GET_SIZE_01(1))
    then show ?thesis by (simp add: FTRP_def HDRP_def)
  qed
  have p3: "PUT s2 (a + m - 8) (PACK m 0) = Some s3"
    using ta(4) by (simp add: PUT_Some s3_def s2_def e_def)
  have g3: "rdw s3 c = rdw s c" if "al4 c" "c \<noteq> a - 4" "c \<noteq> e - 8" for c
    using that ta by (simp add: s3_def s2_def rdw_wrw)
  have ae: "a - 4 \<noteq> e - 8"
  proof (cases M)
    case Nil
    then show ?thesis using ne(1) by simp
  next
    case (Cons b M')
    obtain sz al where b: "b = (sz, al)" by (cases b)
    show ?thesis
    proof (cases "M' = []")
      case True
      then have "tags a M = [a - 4, e - 8]" using Cons b we by auto
      then show ?thesis using N(10) unfolding tg by auto
    next
      case False
      have "e - 8 \<in> set (tags (a + sz) M')"
        using last_tag[OF False, of "a + sz"] we Cons b by simp
      then show ?thesis using N(10) Cons b unfolding tg by auto
    qed
  qed
  have c3: "rdw s3 (a - 4) = PACK m 0" "rdw s3 (e - 8) = PACK m 0"
    using ta ae by (simp_all add: s3_def s2_def rdw_wrw)
  have c1: "chain s3 hp A"
  proof (rule chain_frame[OF ch(1)], rule ballI)
    fix c assume c: "c \<in> set (tags hp A)"
    then have "al4 c" using N(5) tg by auto
    moreover have "c \<noteq> a - 4" "c \<noteq> e - 8" using c tAB by blast+
    ultimately show "rdw s3 c = rdw s c" by (rule g3)
  qed
  have c2: "chain s3 e B"
  proof (rule chain_frame[OF ch(2)], rule ballI)
    fix c assume c: "c \<in> set (tags e B)"
    then have "al4 c" using N(5) tg by auto
    moreover have "c \<noteq> a - 4" "c \<noteq> e - 8" using c tAB by blast+
    ultimately show "rdw s3 c = rdw s c" by (rule g3)
  qed
  have cb: "chain s3 hp bs'" using c1 c2 c3 by (simp add: bs'_def w e_def)
  have e3: "rdw s3 (mem_brk s - 4) = PACK 0 1"
  proof -
    have "mem_brk s - 4 \<noteq> a - 4" "mem_brk s - 4 \<noteq> e - 8" using N(9) tb by auto
    then show ?thesis using g3[OF N(6)] H(7) by simp
  qed
  have sg3: "seg s3 0 (rdw s3 hp) fl 0"
  proof -
    have o: "a - 4 \<notin> set (lcells fl)" "e - 8 \<notin> set (lcells fl)" "hp \<noteq> a - 4" "hp \<noteq> e - 8"
      "al4 hp" "\<forall>x\<in>set (lcells fl). al4 x"
      using tn N(2) by auto
    have "rdw s3 hp = rdw s hp" using o by (intro g3) auto
    moreover have "seg s2 0 (rdw s hp) fl 0"
      unfolding s2_def using H(8) ta(1) o(1,6) by (rule seg_wrw)
    then have "seg s3 0 (rdw s hp) fl 0"
      unfolding s3_def using ta(2) o(2,6) by (rule seg_wrw)
    ultimately show ?thesis by simp
  qed
  have sub: "set fl \<subseteq> set (starts hp bs')"
    using H(10) di unfolding st by auto
  have fields: "heap_p s3 = hp" "mem_brk s3 = mem_brk s" "mem_start_brk s3 = mem_start_brk s"
    "mem_max_addr s3 = mem_max_addr s"
    by (simp_all add: s3_def s2_def hp_def)
  have "heap_inv s3 bs' fl"
    unfolding heap_inv_def fields
    using t1 H(2,12,13) so to cb e3 sg3 H(9) sub H(11) by (intro conjI) assumption+
  then show ?thesis using p1 q2 p3 fields(1) hp_def bs'_def by simp
qed

lemma read_block:
  assumes "heap_inv s (A @ (sz, al) # B) fl" "a = wend (heap_p s) A"
  shows "GET_SIZE s (HDRP a) = Some sz" "GET_ALLOC s (HDRP a) = Some (of_bool al)"
    "GET_SIZE s (a + sz - 8) = Some sz" "GET_ALLOC s (a + sz - 8) = Some (of_bool al)"
proof -
  define hp where "hp = heap_p s"
  note H = heap_invD[OF assms(1), folded hp_def]
  note N = inv_nodes[OF assms(1), folded hp_def]
  have w: "wend hp A = a" using assms(2) hp_def by simp
  have t: "rdw s (a - 4) = PACK sz (of_bool al)" "rdw s (a + sz - 8) = PACK sz (of_bool al)"
    using H(6) by (simp_all add: w)
  have m: "mapped s (a - 4) 4" "mapped s (a + sz - 8) 4" using N(5) by (simp_all add: w)
  have z: "sz AND 7 = 0" using H(4) by simp
  show "GET_SIZE s (HDRP a) = Some sz" unfolding HDRP_def using m(1) t(1) z by (rule GET_SIZE_tag)
  show "GET_ALLOC s (HDRP a) = Some (of_bool al)"
    unfolding HDRP_def using m(1) t(1) z by (rule GET_ALLOC_tag)
  show "GET_SIZE s (a + sz - 8) = Some sz" using m(2) t(2) z by (rule GET_SIZE_tag)
  show "GET_ALLOC s (a + sz - 8) = Some (of_bool al)" using m(2) t(2) z by (rule GET_ALLOC_tag)
qed

lemma read_epilogue:
  assumes "heap_inv s bs fl"
  shows "GET_ALLOC s (HDRP (wend (heap_p s) bs)) = Some 1"
proof -
  note H = heap_invD[OF assms]
  note N = inv_nodes[OF assms]
  have z: "(0 :: word32) AND 7 = 0" by simp
  have "GET_ALLOC s (mem_brk s - 4) = Some 1" using N(7) H(7) z by (rule GET_ALLOC_01(2))
  then show ?thesis using N(13) by (simp add: HDRP_def)
qed

section \<open>The four cases of coalescing\<close>

lemma no_adj_append:
  "no_adj (xs @ ys) = (no_adj xs \<and> no_adj ys \<and> (xs = [] \<or> ys = [] \<or> snd (last xs) \<or> snd (hd ys)))"
  apply (induction xs rule: no_adj.induct)
    apply auto[1]
   apply simp
  apply (cases ys; auto)
  done

lemma no_adj_Cons:
  "no_adj (x # ys) = (no_adj ys \<and> (ys = [] \<or> snd x \<or> snd (hd ys)))"
  by (cases ys) auto

lemma frees_sub_starts: "set (frees a bs) \<subseteq> set (starts a bs)"
  using frees_starts by blast

lemma coalesce_common:
  assumes H: "heap_rel s (pre' @ (psz, pal) # (sz, False) # post)
      (pre' @ (psz, pal) # (sz, True) # post) fl"
    and ad: "a' = wend (heap_p s) pre'" "bp = a' + psz" "e = bp + sz"
  shows "heap_inv s (pre' @ (psz, pal) # (sz, False) # post) fl"
    and "bp \<notin> set fl" and "bp \<noteq> heap_p s" and "distinct fl"
    and "set fl = set (frees (heap_p s) pre') \<union> (if pal then {} else {a'}) \<union> set (frees e post)"
    and "a' \<notin> set (frees (heap_p s) pre')" "a' \<notin> set (frees e post)"
    and "bp \<notin> set (frees (heap_p s) pre')" "bp \<notin> set (frees e post)" "a' \<noteq> bp"
    and "e \<notin> set (frees (heap_p s) pre')" "a' \<noteq> e" "bp \<noteq> e" "e \<notin> set (starts (heap_p s) pre')"
    and "no_adj (pre' @ (psz, pal) # (sz, True) # post)"
proof -
  define hp where "hp = heap_p s"
  define bs where "bs = pre' @ (psz, pal) # (sz, False) # post"
  have H0: "heap_rel s bs (pre' @ (psz, pal) # (sz, True) # post) fl" using H bs_def by simp
  note D = heap_okD[OF H0, folded hp_def]
  show I: "heap_inv s (pre' @ (psz, pal) # (sz, False) # post) fl" using H by (rule heap_rel_inv)
  note N = inv_nodes[OF I, folded hp_def]
  have w: "wend hp pre' = a'" "a' + psz = bp" "bp + sz = e" using ad by (simp_all add: hp_def)
  have st: "starts hp (pre' @ (psz, pal) # (sz, False) # post)
      = starts hp pre' @ a' # bp # starts e post"
    by (simp add: w)
  have ds: "distinct (starts hp pre' @ a' # bp # starts e post)" using N(12)[unfolded st] .
  have fs: "set (frees hp pre') \<subseteq> set (starts hp pre')" "set (frees e post) \<subseteq> set (starts e post)"
    by (rule frees_sub_starts)+
  have fr: "frees hp (pre' @ (psz, pal) # (sz, True) # post)
      = frees hp pre' @ (if pal then [] else [a']) @ frees e post"
    by (simp add: w)
  show "distinct fl" using D(9) .
  show se: "set fl = set (frees (heap_p s) pre') \<union> (if pal then {} else {a'}) \<union> set (frees e post)"
    using D(10) fr by (auto simp add: hp_def)
  show "a' \<notin> set (frees (heap_p s) pre')" "a' \<notin> set (frees e post)"
    "bp \<notin> set (frees (heap_p s) pre')" "bp \<notin> set (frees e post)" "a' \<noteq> bp"
    using ds fs by (auto simp add: hp_def)
  then show "bp \<notin> set fl" using se by (auto split: if_splits)
  have hin: "hp \<in> set (starts hp pre' @ [a'])"
  proof (cases pre')
    case Nil
    then show ?thesis using ad(1) hp_def by simp
  next
    case (Cons b list)
    then show ?thesis by (cases b) simp
  qed
  then show "bp \<noteq> heap_p s" using ds hp_def by auto
  show "no_adj (pre' @ (psz, pal) # (sz, True) # post)" using D(11) .
  have e1: "e \<notin> set (starts hp pre')" "a' \<noteq> e" "bp \<noteq> e" if "post \<noteq> []"
  proof -
    from that obtain b post' where "post = b # post'" by (cases post) auto
    then have "e \<in> set (starts e post)" by (cases b) simp
    then show "e \<notin> set (starts hp pre')" "a' \<noteq> e" "bp \<noteq> e" using ds by auto
  qed
  have lt: "unat hp + total bs < 4294967296" using D(5) unsigned_less[of "mem_brk s"] by simp
  have e2: "e \<notin> set (starts hp pre')" "a' \<noteq> e" "bp \<noteq> e" if "post = []"
  proof -
    have we: "wend hp bs = e" using that by (simp add: bs_def w)
    have ue: "unat e = unat hp + total bs" using unat_wend[OF lt] we by simp
    have b: "unat c + 8 \<le> unat hp + total bs" if "c \<in> set (starts hp bs)" for c
    proof -
      have "c \<in> set (cells hp bs)" using that cells_split[of hp bs] lcells_mem by blast
      then show ?thesis using cells_bounds[OF D(4,3) lt] by blast
    qed
    have "e \<notin> set (starts hp bs)"
    proof
      assume "e \<in> set (starts hp bs)"
      then have "unat e + 8 \<le> unat hp + total bs" by (rule b)
      then show False using ue by simp
    qed
    then show "e \<notin> set (starts hp pre')" "a' \<noteq> e" "bp \<noteq> e" using st bs_def by auto
  qed
  show "e \<notin> set (starts (heap_p s) pre')" "a' \<noteq> e" "bp \<noteq> e"
    using e1 e2 hp_def by blast+
  then show "e \<notin> set (frees (heap_p s) pre')" using fs hp_def by auto
qed

lemma coalesce_reads:
  assumes I: "heap_inv t (pre' @ (psz, pal) # (sz, False) # post) fl'"
    and ad: "a' = wend (heap_p t) pre'" "bp = a' + psz"
  shows "PREV_BLKP t bp = Some a'" "FTRP t a' = Some (bp - 8)"
    "GET_ALLOC t (bp - 8) = Some (of_bool pal)" "NEXT_BLKP t bp = Some (bp + sz)"
    "GET_SIZE t (HDRP bp) = Some sz" "GET_SIZE t (HDRP a') = Some psz"
    "post = [] \<or> snd (hd post) \<Longrightarrow> GET_ALLOC t (HDRP (bp + sz)) = Some 1"
    "post = (nsz, False) # post' \<Longrightarrow> GET_ALLOC t (HDRP (bp + sz)) = Some 0"
    "post = (nsz, False) # post' \<Longrightarrow> GET_SIZE t (HDRP (bp + sz)) = Some nsz"
proof -
  note p = read_block[OF I ad(1)]
  have I2: "heap_inv t ((pre' @ [(psz, pal)]) @ (sz, False) # post) fl'" using I by simp
  have b: "bp = wend (heap_p t) (pre' @ [(psz, pal)])" using ad by simp
  note c = read_block[OF I2 b]
  show "GET_SIZE t (HDRP bp) = Some sz" using c(1) .
  show "GET_SIZE t (HDRP a') = Some psz" using p(1) .
  show "PREV_BLKP t bp = Some a'" using p(3) ad(2) by (simp add: PREV_BLKP_def)
  show "FTRP t a' = Some (bp - 8)" using p(1) ad(2) by (simp add: FTRP_def)
  show "GET_ALLOC t (bp - 8) = Some (of_bool pal)" using p(4) ad(2) by simp
  show "NEXT_BLKP t bp = Some (bp + sz)" using c(1) by (simp add: NEXT_BLKP_def)
  show "GET_ALLOC t (HDRP (bp + sz)) = Some 1" if n: "post = [] \<or> snd (hd post)"
  proof (cases post)
    case Nil
    have "GET_ALLOC t (HDRP (wend (heap_p t) (pre' @ (psz, pal) # (sz, False) # post))) = Some 1"
      using I by (rule read_epilogue)
    then show ?thesis using Nil ad by simp
  next
    case (Cons x post')
    obtain nsz nal where x: "x = (nsz, nal)" by (cases x)
    have I3: "heap_inv t ((pre' @ [(psz, pal), (sz, False)]) @ (nsz, nal) # post') fl'"
      using I Cons x by simp
    have e: "bp + sz = wend (heap_p t) (pre' @ [(psz, pal), (sz, False)])" using ad by simp
    show ?thesis using read_block(2)[OF I3 e] n Cons x by simp
  qed
  show "GET_ALLOC t (HDRP (bp + sz)) = Some 0" "GET_SIZE t (HDRP (bp + sz)) = Some nsz"
    if n: "post = (nsz, False) # post'"
  proof -
    have I3: "heap_inv t ((pre' @ [(psz, pal), (sz, False)]) @ (nsz, False) # post') fl'"
      using I n by simp
    have e: "bp + sz = wend (heap_p t) (pre' @ [(psz, pal), (sz, False)])" using ad by simp
    show "GET_ALLOC t (HDRP (bp + sz)) = Some 0" "GET_SIZE t (HDRP (bp + sz)) = Some nsz"
      using read_block(1,2)[OF I3 e] by simp_all
  qed
qed

lemma set_remove1_distinct: "distinct fl \<Longrightarrow> set (remove1 x fl) = set fl - {x}"
  by simp

lemma coalesce_none:
  assumes H: "heap_rel s (pre' @ (psz, True) # (sz, False) # post)
      (pre' @ (psz, True) # (sz, True) # post) fl"
    and ad: "a' = wend (heap_p s) pre'" "bp = a' + psz"
    and n: "post = [] \<or> snd (hd post)"
  shows "\<exists>s'. coalesce s bp = Some (s', bp)
           \<and> heap_ok s' (pre' @ (psz, True) # (sz, False) # post) (bp # fl)"
proof -
  define e where "e = bp + sz"
  note C = coalesce_common[OF H ad e_def]
  note R = coalesce_reads[OF C(1) ad]
  have w: "wend (heap_p s) pre' = a'" "a' + psz = bp" "bp + sz = e" using ad e_def by simp_all
  have bs: "bp \<in> set (starts (heap_p s) (pre' @ (psz, True) # (sz, False) # post))"
    by (simp add: w)
  obtain s1 where s1: "insert_front_list s bp = Some s1"
    "heap_inv s1 (pre' @ (psz, True) # (sz, False) # post) (bp # fl)" "heap_p s1 = heap_p s"
    using push_step[OF C(1) bs C(2,3)] by blast
  have co: "coalesce s bp = Some (s1, bp)"
    using R(1-6) R(7)[OF n] s1(1) by (simp add: coalesce_def)
  have fs: "set (bp # fl) = set (frees (heap_p s1) (pre' @ (psz, True) # (sz, False) # post))"
    using C(5) by (simp add: s1(3) w)
  have na: "no_adj (pre' @ (psz, True) # (sz, False) # post)"
    using C(15) n by (simp add: no_adj_append no_adj_Cons)
  have "heap_ok s1 (pre' @ (psz, True) # (sz, False) # post) (bp # fl)"
    using s1(2) fs na by (rule heap_inv_ok)
  then show ?thesis using co by blast
qed

lemma coalesce_next:
  assumes H: "heap_rel s (pre' @ (psz, True) # (sz, False) # (nsz, False) # post')
      (pre' @ (psz, True) # (sz, True) # (nsz, False) # post') fl"
    and ad: "a' = wend (heap_p s) pre'" "bp = a' + psz"
  shows "\<exists>s'. coalesce s bp = Some (s', bp)
           \<and> heap_ok s' (pre' @ (psz, True) # (sz + nsz, False) # post')
                (bp # remove1 (bp + sz) fl)"
proof -
  define e where "e = bp + sz"
  define hp where "hp = heap_p s"
  define bs where "bs = pre' @ (psz, True) # (sz, False) # (nsz, False) # post'"
  define bs' where "bs' = pre' @ (psz, True) # (sz + nsz, False) # post'"
  define fl1 where "fl1 = remove1 e fl"
  note C = coalesce_common[OF H ad e_def, folded hp_def bs_def]
  note R = coalesce_reads[OF C(1)[unfolded bs_def] ad]
  note Rn = R(8)[OF refl] R(9)[OF refl]
  have w: "wend hp pre' = a'" "a' + psz = bp" "bp + sz = e" using ad e_def hp_def by simp_all
  note N = inv_nodes[OF C(1), folded hp_def]
  have ds: "distinct (starts hp pre' @ a' # bp # e # starts (e + nsz) post')"
    using N(12) by (simp add: bs_def w)
  have fe: "e \<notin> set (frees (e + nsz) post')" using ds frees_sub_starts[of "e + nsz" post'] by auto
  have ef: "e \<in> set fl" using C(5) by simp
  obtain s1 where s1: "rmv_from_list s e = Some s1" "heap_inv s1 bs fl1" "heap_p s1 = hp"
    using unlink_step[OF C(1) ef] hp_def fl1_def by blast
  have d1: "bp \<notin> set fl1" "e \<notin> set fl1" "distinct fl1"
    using C(2,4) by (simp_all add: fl1_def)
  have I1: "heap_inv s1 ((pre' @ [(psz, True)]) @ [(sz, False), (nsz, False)] @ post') fl1"
    using s1(2) by (simp add: bs_def)
  have b1: "bp = wend (heap_p s1) (pre' @ [(psz, True)])" by (simp add: s1(3) w)
  have di: "set fl1 \<inter> set (starts bp [(sz, False), (nsz, False)]) = {}"
    using d1 by (simp add: w)
  have m: "sz + nsz = wsum [(sz, False), (nsz, False)]" by simp
  obtain s2 s3 where s3: "PUT s1 (HDRP bp) (PACK (sz + nsz) 0) = Some s2"
    "FTRP s2 bp = Some (bp + (sz + nsz) - 8)"
    "PUT s2 (bp + (sz + nsz) - 8) (PACK (sz + nsz) 0) = Some s3"
    "heap_inv s3 ((pre' @ [(psz, True)]) @ (sz + nsz, False) # post') fl1" "heap_p s3 = heap_p s1"
    using retag_step[OF I1 _ _ b1 m di] by auto
  have I3: "heap_inv s3 bs' fl1" using s3(4) by (simp add: bs'_def)
  have h3: "heap_p s3 = hp" using s3(5) s1(3) by simp
  have b3: "bp \<in> set (starts (heap_p s3) bs')" by (simp add: bs'_def h3 w)
  have n3: "bp \<noteq> heap_p s3" using C(3) h3 by simp
  obtain s4 where s4: "insert_front_list s3 bp = Some s4" "heap_inv s4 bs' (bp # fl1)"
    "heap_p s4 = heap_p s3"
    using push_step[OF I3 b3 d1(1) n3] by blast
  have co: "coalesce s bp = Some (s4, bp)"
    using R(1-6) Rn s1(1) s3(1,2,3) s4(1) by (simp add: coalesce_def w)
  have "set fl = set (frees hp pre') \<union> {e} \<union> set (frees (e + nsz) post')"
    using C(5) by simp
  then have "set fl1 = set (frees hp pre') \<union> set (frees (e + nsz) post')"
    using C(4,11) fe by (auto simp add: fl1_def)
  then have fs: "set (bp # fl1) = set (frees (heap_p s4) bs')"
    by (simp add: s4(3) h3 bs'_def w add.assoc[symmetric])
  have na: "no_adj bs'"
    using C(15) by (simp add: bs'_def no_adj_append no_adj_Cons)
  have "heap_ok s4 bs' (bp # fl1)" using s4(2) fs na by (rule heap_inv_ok)
  then show ?thesis using co by (auto simp add: bs'_def fl1_def e_def)
qed

lemma coalesce_prev:
  assumes H: "heap_rel s (pre' @ (psz, False) # (sz, False) # post)
      (pre' @ (psz, False) # (sz, True) # post) fl"
    and ad: "a' = wend (heap_p s) pre'" "bp = a' + psz"
    and n: "post = [] \<or> snd (hd post)"
  shows "\<exists>s'. coalesce s bp = Some (s', a')
           \<and> heap_ok s' (pre' @ (sz + psz, False) # post) (a' # remove1 a' fl)"
proof -
  define e where "e = bp + sz"
  define hp where "hp = heap_p s"
  define bs where "bs = pre' @ (psz, False) # (sz, False) # post"
  define bs' where "bs' = pre' @ (sz + psz, False) # post"
  define fl1 where "fl1 = remove1 a' fl"
  note C = coalesce_common[OF H ad e_def, folded hp_def bs_def]
  note R = coalesce_reads[OF C(1)[unfolded bs_def] ad]
  have w: "wend hp pre' = a'" "a' + psz = bp" "bp + sz = e" using ad e_def hp_def by simp_all
  have w2: "a' + (sz + psz) = e" unfolding e_def ad(2) by (simp add: add.commute add.left_commute)
  note N = inv_nodes[OF C(1), folded hp_def]
  note D = heap_invD[OF C(1), folded hp_def]
  have pn: "pre' \<noteq> []" using D(1) by (auto simp add: bs_def)
  have hs: "hp \<in> set (starts hp pre')" using pn by (cases pre') auto
  have ds: "distinct (starts hp pre' @ a' # bp # starts e post)"
    using N(12) by (simp add: bs_def w)
  have ah: "a' \<noteq> hp" using hs ds by auto
  have af: "a' \<in> set fl" using C(5) by simp
  obtain s1 where s1: "rmv_from_list s a' = Some s1" "heap_inv s1 bs fl1" "heap_p s1 = hp"
    using unlink_step[OF C(1) af] hp_def fl1_def by blast
  have d1: "bp \<notin> set fl1" "a' \<notin> set fl1" "distinct fl1"
    using C(2,4) by (simp_all add: fl1_def)
  have I1: "heap_inv s1 (pre' @ [(psz, False), (sz, False)] @ post) fl1"
    using s1(2) by (simp add: bs_def)
  have b1: "a' = wend (heap_p s1) pre'" by (simp add: s1(3) w)
  have di: "set fl1 \<inter> set (starts a' [(psz, False), (sz, False)]) = {}"
    using d1 by (simp add: w)
  have m: "sz + psz = wsum [(psz, False), (sz, False)]" by (simp add: add.commute)
  obtain s2 s3 where s3: "PUT s1 (HDRP a') (PACK (sz + psz) 0) = Some s2"
    "FTRP s2 a' = Some (a' + (sz + psz) - 8)"
    "PUT s2 (a' + (sz + psz) - 8) (PACK (sz + psz) 0) = Some s3"
    "heap_inv s3 (pre' @ (sz + psz, False) # post) fl1" "heap_p s3 = heap_p s1"
    using retag_step[OF I1 _ pn b1 m di] by auto
  have I3: "heap_inv s3 bs' fl1" using s3(4) by (simp add: bs'_def)
  have h3: "heap_p s3 = hp" using s3(5) s1(3) by simp
  have b3: "a' \<in> set (starts (heap_p s3) bs')" by (simp add: bs'_def h3 w)
  have n3: "a' \<noteq> heap_p s3" using ah h3 by simp
  obtain s4 where s4: "insert_front_list s3 a' = Some s4" "heap_inv s4 bs' (a' # fl1)"
    "heap_p s4 = heap_p s3"
    using push_step[OF I3 b3 d1(2) n3] by blast
  have co: "coalesce s bp = Some (s4, a')"
    using R(1-6) R(7)[OF n] s1(1) s3(1,2,3) s4(1) by (simp add: coalesce_def)
  have "set fl = set (frees hp pre') \<union> {a'} \<union> set (frees e post)"
    using C(5) by simp
  then have "set fl1 = set (frees hp pre') \<union> set (frees e post)"
    using C(4,6,7) by (auto simp add: fl1_def)
  then have fs: "set (a' # fl1) = set (frees (heap_p s4) bs')"
    by (simp add: s4(3) h3 bs'_def w w2)
  have na: "no_adj bs'"
    using C(15) n pn by (simp add: bs'_def no_adj_append no_adj_Cons)
  have "heap_ok s4 bs' (a' # fl1)" using s4(2) fs na by (rule heap_inv_ok)
  then show ?thesis using co by (auto simp add: bs'_def fl1_def)
qed

lemma coalesce_both:
  assumes H: "heap_rel s (pre' @ (psz, False) # (sz, False) # (nsz, False) # post')
      (pre' @ (psz, False) # (sz, True) # (nsz, False) # post') fl"
    and ad: "a' = wend (heap_p s) pre'" "bp = a' + psz"
  shows "\<exists>s'. coalesce s bp = Some (s', a')
           \<and> heap_ok s' (pre' @ (sz + (psz + nsz), False) # post')
                (a' # remove1 (bp + sz) (remove1 a' fl))"
proof -
  define e where "e = bp + sz"
  define hp where "hp = heap_p s"
  define bs where "bs = pre' @ (psz, False) # (sz, False) # (nsz, False) # post'"
  define bs' where "bs' = pre' @ (sz + (psz + nsz), False) # post'"
  define fl1 where "fl1 = remove1 a' fl"
  define fl2 where "fl2 = remove1 e fl1"
  note C = coalesce_common[OF H ad e_def, folded hp_def bs_def]
  note R = coalesce_reads[OF C(1)[unfolded bs_def] ad]
  note Rn = R(8)[OF refl] R(9)[OF refl]
  have w: "wend hp pre' = a'" "a' + psz = bp" "bp + sz = e" using ad e_def hp_def by simp_all
  have w2: "a' + (sz + (psz + nsz)) = e + nsz"
    unfolding e_def ad(2) by (simp add: add.commute add.left_commute)
  note N = inv_nodes[OF C(1), folded hp_def]
  note D = heap_invD[OF C(1), folded hp_def]
  have pn: "pre' \<noteq> []" using D(1) by (auto simp add: bs_def)
  have hs: "hp \<in> set (starts hp pre')" using pn by (cases pre') auto
  have ds: "distinct (starts hp pre' @ a' # bp # e # starts (e + nsz) post')"
    using N(12) by (simp add: bs_def w)
  have fe: "e \<notin> set (frees (e + nsz) post')" "a' \<notin> set (frees (e + nsz) post')"
    using ds frees_sub_starts[of "e + nsz" post'] by auto
  have ah: "a' \<noteq> hp" using hs ds by auto
  have af: "a' \<in> set fl" using C(5) by simp
  obtain s1 where s1: "rmv_from_list s a' = Some s1" "heap_inv s1 bs fl1" "heap_p s1 = hp"
    using unlink_step[OF C(1) af] hp_def fl1_def by blast
  have ef: "e \<in> set fl1" using C(5,12) by (simp add: fl1_def C(4))
  have ad1: "a' = wend (heap_p s1) pre'" by (simp add: s1(3) w)
  note R1 = coalesce_reads[OF s1(2)[unfolded bs_def] ad1 ad(2)]
  obtain s2 where s2: "rmv_from_list s1 e = Some s2" "heap_inv s2 bs fl2" "heap_p s2 = hp"
    using unlink_step[OF s1(2) ef] s1(3) fl2_def by auto
  have ad2: "a' = wend (heap_p s2) pre'" by (simp add: s2(3) w)
  note R2 = coalesce_reads[OF s2(2)[unfolded bs_def] ad2 ad(2)]
  have d2: "bp \<notin> set fl2" "a' \<notin> set fl2" "e \<notin> set fl2" "distinct fl2"
    using C(2,4) by (simp_all add: fl1_def fl2_def)
  have I2: "heap_inv s2 (pre' @ [(psz, False), (sz, False), (nsz, False)] @ post') fl2"
    using s2(2) by (simp add: bs_def)
  have di: "set fl2 \<inter> set (starts a' [(psz, False), (sz, False), (nsz, False)]) = {}"
    using d2 by (simp add: w)
  have m: "sz + (psz + nsz) = wsum [(psz, False), (sz, False), (nsz, False)]"
    by (simp add: add.commute add.left_commute)
  obtain s3 s4 where s4: "PUT s2 (HDRP a') (PACK (sz + (psz + nsz)) 0) = Some s3"
    "FTRP s3 a' = Some (a' + (sz + (psz + nsz)) - 8)"
    "PUT s3 (a' + (sz + (psz + nsz)) - 8) (PACK (sz + (psz + nsz)) 0) = Some s4"
    "heap_inv s4 (pre' @ (sz + (psz + nsz), False) # post') fl2" "heap_p s4 = heap_p s2"
    using retag_step[OF I2 _ pn ad2 m di] by auto
  have I4: "heap_inv s4 bs' fl2" using s4(4) by (simp add: bs'_def)
  have h4: "heap_p s4 = hp" using s4(5) s2(3) by simp
  have b4: "a' \<in> set (starts (heap_p s4) bs')" by (simp add: bs'_def h4 w)
  have n4: "a' \<noteq> heap_p s4" using ah h4 by simp
  obtain s5 where s5: "insert_front_list s4 a' = Some s5" "heap_inv s5 bs' (a' # fl2)"
    "heap_p s5 = heap_p s4"
    using push_step[OF I4 b4 d2(2) n4] by blast
  have co: "coalesce s bp = Some (s5, a')"
    using R(1-6) Rn s1(1) R1(4) s2(1) R2(1) s4(1,2,3) s5(1)
    by (simp add: coalesce_def w)
  have "set fl = set (frees hp pre') \<union> {a'} \<union> ({e} \<union> set (frees (e + nsz) post'))"
    using C(5) by simp
  then have "set fl2 = set (frees hp pre') \<union> set (frees (e + nsz) post')"
    using C(4,6,11) fe by (auto simp add: fl1_def fl2_def)
  then have fs: "set (a' # fl2) = set (frees (heap_p s5) bs')"
    by (simp add: s5(3) h4 bs'_def w w2)
  have na: "no_adj bs'"
    using C(15) pn by (simp add: bs'_def no_adj_append no_adj_Cons)
  have "heap_ok s5 bs' (a' # fl2)" using s5(2) fs na by (rule heap_inv_ok)
  then show ?thesis using co by (auto simp add: bs'_def fl1_def fl2_def e_def)
qed

text \<open>
  C3. Let \<^verbatim>\<open>coalesce(bp)\<close> be called as \<^verbatim>\<open>mm_free\<close> and \<^verbatim>\<open>extend_heap\<close> call it: the state
  satisfies the heap invariant except that the block at \<open>bp\<close>, of size \<open>sz\<close>, already has
  its flag clear in header and footer and is not yet on the free list. Then the call
  returns, and what it returns is given by the four cases on the flags of the two
  neighbours:
  \<^item> neither is free: the blocks stay as they are, and \<open>bp\<close> is put in front of the list;
  \<^item> only the successor is free: it is taken off the list, and the merged block at
    \<open>bp\<close> has the two sizes added;
  \<^item> only the predecessor is free: it is taken off the list, and the merged block is
    at the address of the predecessor, with the two sizes added;
  \<^item> both are free: both are taken off the list, and the merged block is at the address
    of the predecessor, with the three sizes added.

  In every case the result is the address of the merged block, the merged block is the
  first of the free list, and the state satisfies the heap invariant for the merged
  blocks: header and footer of the merged block hold the merged size and a clear flag,
  the list holds exactly the free blocks, and no two neighbours are both free.
\<close>

theorem coalesce_four_cases:
  assumes "heap_rel s (pre @ (sz, False) # post) (pre @ (sz, True) # post) fl"
    and "bp = wend (heap_p s) pre"
  shows "case coalesced pre sz post bp fl of
           (bs', fl', r) \<Rightarrow> \<exists>s'. coalesce s bp = Some (s', r) \<and> heap_ok s' bs' fl'"
proof -
  have "take 1 (pre @ (sz, False) # post) = [(16, True)]"
    using assms(1) by (simp add: heap_rel_def)
  then have "pre \<noteq> []" by auto
  then obtain pre' x where p: "pre = pre' @ [x]" by (cases pre rule: rev_cases) auto
  obtain psz pal where x: "x = (psz, pal)" by (cases x)
  define a' where "a' = wend (heap_p s) pre'"
  have b: "bp = a' + psz" using assms(2) p x a'_def by simp
  have a: "bp - psz = a'" using b by simp
  show ?thesis
  proof (cases "post \<noteq> [] \<and> \<not> snd (hd post)")
    case True
    then obtain nsz post' where q: "post = (nsz, False) # post'" by (cases post) auto
    show ?thesis
    proof (cases pal)
      case True
      have H: "heap_rel s (pre' @ (psz, True) # (sz, False) # (nsz, False) # post')
          (pre' @ (psz, True) # (sz, True) # (nsz, False) # post') fl"
        using assms(1) p x q True by simp
      show ?thesis using coalesce_next[OF H a'_def b] p x q True
        by (simp add: coalesced_def)
    next
      case False
      have H: "heap_rel s (pre' @ (psz, False) # (sz, False) # (nsz, False) # post')
          (pre' @ (psz, False) # (sz, True) # (nsz, False) # post') fl"
        using assms(1) p x q False by simp
      show ?thesis using coalesce_both[OF H a'_def b] p x q False a
        by (simp add: coalesced_def)
    qed
  next
    case False
    then have n: "post = [] \<or> snd (hd post)" by simp
    show ?thesis
    proof (cases pal)
      case True
      have H: "heap_rel s (pre' @ (psz, True) # (sz, False) # post)
          (pre' @ (psz, True) # (sz, True) # post) fl"
        using assms(1) p x True by simp
      show ?thesis using coalesce_none[OF H a'_def b n] p x True False
        by (simp add: coalesced_def)
    next
      case pf: False
      have H: "heap_rel s (pre' @ (psz, False) # (sz, False) # post)
          (pre' @ (psz, False) # (sz, True) # post) fl"
        using assms(1) p x pf by simp
      show ?thesis using coalesce_prev[OF H a'_def b n] p x pf False a
        by (simp add: coalesced_def)
    qed
  qed
qed

section \<open>Coalescing on a state reached by the allocator\<close>

lemma mid_step:
  "do { s1 \<leftarrow> PUT s_three (HDRP 0x1028) (PACK 16 0);
        f \<leftarrow> FTRP s1 0x1028;
        PUT s1 f (PACK 16 0) } = Some s_mid"
  by (simp add: macros word_upd_words word_at_words s_three_def s_mid_def s_init_def cong: weak)

lemma four_step: "mm_free s_three 0x1028 = Some s_four"
  by (simp add: exec s_init_def s_three_def s_four_def cong: weak)

lemma s_mid_rel:
  "heap_rel s_mid ([(16, True), (16, False)] @ (16, False) # [(224, False)])
     ([(16, True), (16, False)] @ (16, True) # [(224, False)]) [0x1018, 0x1038]"
  by (simp add: heap_rel_def rdw_def word_at_words PACK_def s_mid_def s_init_def)

theorem coalesce_four_cases_witness:
  "heap_rel s_mid ([(16, True), (16, False)] @ (16, False) # [(224, False)])
     ([(16, True), (16, False)] @ (16, True) # [(224, False)]) [0x1018, 0x1038]
   \<and> (\<exists>s'. coalesce s_mid 0x1028 = Some (s', 0x1018)
          \<and> heap_ok s' [(16, True), (256, False)] [0x1018])"
proof -
  have p: "0x1028 = wend (heap_p s_mid) [(16, True), (16, False)]"
    by (simp add: s_mid_def s_init_def)
  have "\<exists>s'. coalesce s_mid 0x1028 = Some (s', 0x1018)
          \<and> heap_ok s' [(16, True), (256, False)] [0x1018]"
    using coalesce_four_cases[OF s_mid_rel p] by (simp add: coalesced_def)
  then show ?thesis using s_mid_rel by blast
qed

section \<open>Zero-size requests\<close>

text \<open>A null result for a size that is not zero comes from the failure path of
  \<^verbatim>\<open>mm_malloc\<close> and so with its message as the last line of the output.\<close>

lemma mm_malloc_failure_prints:
  assumes "mm_malloc s sz = Some (s', NULL)" "sz \<noteq> 0"
  shows "out s' \<noteq> [] \<and> last (out s') = ''extend_heap failed '' @ [CHR 0x0A]"
  using assms
  by (auto simp add: mm_malloc_def Let_def split: Option.bind_splits if_splits prod.splits)

text \<open>
  C9. \<^verbatim>\<open>mm_malloc(0)\<close> returns the null pointer and the state it was called in: memory
  (so every header, footer and link), the arena bounds and the output are what they were.
  The call printed nothing, which tells it from the failure path, the only other way to a
  null result: that path appends the message \<^verbatim>\<open>extend_heap failed\<close> to the output.
\<close>

theorem mm_malloc_zero_noop: "mm_malloc s 0 = Some (s, NULL)"
  by (simp add: mm_malloc_def)

text \<open>
  C10. \<^verbatim>\<open>mm_realloc(p, 0)\<close> returns the null pointer and leaves the state as it was, for
  every pointer \<open>p\<close>: the inner \<^verbatim>\<open>mm_malloc(0)\<close> yields null, and the function returns
  before the copy and before \<^verbatim>\<open>mm_free\<close>. The old block keeps its header, footer and
  payload, and the free list is untouched.
\<close>

theorem mm_realloc_zero_noop: "mm_realloc s p 0 = Some (s, NULL)"
  by (simp add: mm_realloc_def mm_malloc_def)

end
